theory Spec2Isabelle
  imports Complex_Main "HOL-Library.AList"
begin

unbundle bit_operations_syntax

section \<open>Exceptions\<close>

text \<open>
  The Python exceptions that the modelled functions raise.  A function that can raise
  returns its outcome (\<open>Inl\<close> the exception, \<open>Inr\<close> the returned value) together with
  the state as the call left it, since a raise does not undo earlier mutations.
\<close>

datatype error = KeyError | TypeError | ValueError | RuntimeError | ConnectionResetError

section \<open>Snowflake generator (\<open>models/snowflake.py\<close>)\<close>

definition WORKER_BITS :: nat where "WORKER_BITS = 5"

definition DATACENTER_BITS :: nat where "DATACENTER_BITS = 5"

definition SEQUENCE_BITS :: nat where "SEQUENCE_BITS = 12"

definition MAX_WORKER_ID :: int where
  "MAX_WORKER_ID = (- 1) XOR (push_bit WORKER_BITS (- 1))"

definition MAX_DATACENTER_ID :: int where
  "MAX_DATACENTER_ID = (- 1) XOR (push_bit DATACENTER_BITS (- 1))"

definition WORKER_SHIFT :: nat where "WORKER_SHIFT = SEQUENCE_BITS"

definition DATACENTER_SHIFT :: nat where "DATACENTER_SHIFT = SEQUENCE_BITS + WORKER_BITS"

definition TIMESTAMP_SHIFT :: nat where
  "TIMESTAMP_SHIFT = SEQUENCE_BITS + WORKER_BITS + DATACENTER_BITS"

definition SEQUENCE_MASK :: int where
  "SEQUENCE_MASK = (- 1) XOR (push_bit SEQUENCE_BITS (- 1))"

text \<open>
  The attributes of a \<open>SnowflakeGenerator\<close>.  Python integers are unbounded, hence \<open>int\<close>.
\<close>

record generator =
  worker_id :: int
  datacenter_id :: int
  sequence :: int
  last_timestamp :: int

text \<open>\<open>SnowflakeGenerator.__init__\<close>: both identifiers are range-checked.\<close>

definition new_generator :: "int \<Rightarrow> int \<Rightarrow> error + generator" where
  "new_generator w d =
     (if \<not> (0 \<le> w \<and> w \<le> MAX_WORKER_ID) then Inl ValueError
      else if \<not> (0 \<le> d \<and> d \<le> MAX_DATACENTER_ID) then Inl ValueError
      else Inr \<lparr>worker_id = w, datacenter_id = d, sequence = 0, last_timestamp = - 1\<rparr>)"

text \<open>
  The clock is the environment of the generator: the list holds the values that the
  successive calls of \<open>gen_timestamp\<close> (\<open>floor(time.time() * 1000)\<close>) return.  A call
  that needs a reading when the list is exhausted has not returned within the observed
  readings; its value is \<open>None\<close>.

  \<open>til_next_ms\<close> reads the clock until it shows a value greater than \<open>_last_timestamp\<close>.
\<close>

fun til_next_ms :: "int \<Rightarrow> int list \<Rightarrow> (int \<times> int list) option" where
  "til_next_ms last_ts [] = None"
| "til_next_ms last_ts (timestamp # clock) =
     (if timestamp \<le> last_ts then til_next_ms last_ts clock else Some (timestamp, clock))"

text \<open>The value returned in the last statement of \<open>gen_id\<close>; \<open>epoch\<close> is \<open>EPOCH_OFFSET_MS\<close>,
  a constant of the module \<open>constants\<close>, taken as a parameter.\<close>

definition compose_id :: "int \<Rightarrow> int \<Rightarrow> generator \<Rightarrow> int" where
  "compose_id epoch timestamp g =
     ((push_bit TIMESTAMP_SHIFT (timestamp - epoch)
         OR push_bit DATACENTER_SHIFT (datacenter_id g))
         OR push_bit WORKER_SHIFT (worker_id g))
         OR sequence g"

text \<open>The tail of \<open>gen_id\<close>: record the timestamp, return the identifier.\<close>

definition emit_id ::
  "int \<Rightarrow> int \<Rightarrow> generator \<Rightarrow> int list \<Rightarrow> ((error + int) \<times> generator \<times> int list) option" where
  "emit_id epoch timestamp g clock =
     (let g' = g\<lparr>last_timestamp := timestamp\<rparr>
      in Some (Inr (compose_id epoch timestamp g'), g', clock))"

text \<open>
  \<open>gen_id\<close>.  The result is \<open>None\<close> when the call is still waiting for the clock, and
  otherwise the outcome (the exception raised or the identifier returned), the
  generator after the call and the readings not yet consumed.
\<close>

definition gen_id ::
  "int \<Rightarrow> generator \<Rightarrow> int list \<Rightarrow> ((error + int) \<times> generator \<times> int list) option" where
  "gen_id epoch g clock =
     (case clock of
        [] \<Rightarrow> None
      | timestamp # rest \<Rightarrow>
          if timestamp < last_timestamp g then Some (Inl RuntimeError, g, rest)
          else if last_timestamp g = timestamp then
            (let g1 = g\<lparr>sequence := (sequence g + 1) AND SEQUENCE_MASK\<rparr>
             in if sequence g1 = 0 then
                  (case til_next_ms (last_timestamp g1) rest of
                     None \<Rightarrow> None
                   | Some (timestamp', rest') \<Rightarrow> emit_id epoch timestamp' g1 rest')
                else emit_id epoch timestamp g1 rest)
          else emit_id epoch timestamp (g\<lparr>sequence := 0\<rparr>) rest)"

text \<open>
  \<open>n\<close> sequential calls of \<open>gen_id\<close> on one generator; the outcomes are collected in call
  order.  A call that raises leaves the generator usable, so the run goes on.
\<close>

fun gen_ids ::
  "int \<Rightarrow> nat \<Rightarrow> generator \<Rightarrow> int list \<Rightarrow> ((error + int) list \<times> generator \<times> int list) option" where
  "gen_ids epoch 0 g clock = Some ([], g, clock)"
| "gen_ids epoch (Suc n) g clock =
     (case gen_id epoch g clock of
        None \<Rightarrow> None
      | Some (r, g', clock') \<Rightarrow>
          (case gen_ids epoch n g' clock' of
             None \<Rightarrow> None
           | Some (rs, g'', clock'') \<Rightarrow> Some (r # rs, g'', clock'')))"

text \<open>The identifiers among the outcomes of a run.\<close>

fun returned :: "(error + int) list \<Rightarrow> int list" where
  "returned [] = []"
| "returned (Inl e # rs) = returned rs"
| "returned (Inr i # rs) = i # returned rs"

text \<open>
  The generators that \<open>__init__\<close> accepts and \<open>gen_id\<close> maintains: both identifiers
  within their five bits, the sequence within its twelve.
\<close>

definition well_formed :: "generator \<Rightarrow> bool" where
  "well_formed g \<longleftrightarrow>
     0 \<le> worker_id g \<and> worker_id g \<le> MAX_WORKER_ID \<and>
     0 \<le> datacenter_id g \<and> datacenter_id g \<le> MAX_DATACENTER_ID \<and>
     0 \<le> sequence g \<and> sequence g \<le> SEQUENCE_MASK"

text \<open>
  The identifier that belongs to the generator's recorded timestamp and sequence, written
  with sums and products.
\<close>

definition rank :: "int \<Rightarrow> generator \<Rightarrow> int" where
  "rank epoch g =
     (last_timestamp g - epoch) * 4194304 + datacenter_id g * 131072
       + worker_id g * 4096 + sequence g"

section \<open>Wire protocol (\<open>models/event_emitter.py\<close>)\<close>

definition HEARTBEAT_INTERVAL :: int where "HEARTBEAT_INTERVAL = 30000"

datatype Opcode =
  DISPATCH | HEARTBEAT | IDENTIFY | PRESENCE | RESUME | RECONNECT | REQUEST_USERS
  | INVALIDATE_SESSION | HELLO | HEARTBEAT_ACK

fun opcode_value :: "Opcode \<Rightarrow> int" where
  "opcode_value DISPATCH = 0"
| "opcode_value HEARTBEAT = 1"
| "opcode_value IDENTIFY = 2"
| "opcode_value PRESENCE = 3"
| "opcode_value RESUME = 4"
| "opcode_value RECONNECT = 5"
| "opcode_value REQUEST_USERS = 6"
| "opcode_value INVALIDATE_SESSION = 7"
| "opcode_value HELLO = 8"
| "opcode_value HEARTBEAT_ACK = 9"

datatype CloseCode = NORMAL | UNKNOWN_OPCODE | BAD_PAYLOAD | NOT_IDENTIFIED | BAD_TOKEN

fun close_code_value :: "CloseCode \<Rightarrow> int" where
  "close_code_value NORMAL = 1000"
| "close_code_value UNKNOWN_OPCODE = 4001"
| "close_code_value BAD_PAYLOAD = 4002"
| "close_code_value NOT_IDENTIFIED = 4003"
| "close_code_value BAD_TOKEN = 4004"

text \<open>
  The values that \<open>json.loads\<close> returns and \<open>send_json\<close> accepts.  \<open>JNull\<close> is Python's
  \<open>None\<close>; an object is its list of key-value pairs, looked up from the front.
\<close>

datatype json =
  JNull | JBool bool | JInt int | JFloat real | JStr string
  | JList "json list" | JObj "(string \<times> json) list"

text \<open>\<open>data[key]\<close> with a string key: only a dict can be subscripted so.\<close>

fun subscript :: "json \<Rightarrow> string \<Rightarrow> error + json" where
  "subscript (JObj kvs) key = (case map_of kvs key of None \<Rightarrow> Inl KeyError | Some v \<Rightarrow> Inr v)"
| "subscript other key = Inl TypeError"

text \<open>Python's \<open>==\<close> between a decoded value and an integer: \<open>True == 1\<close>, \<open>1.0 == 1\<close>.\<close>

fun py_eq_int :: "json \<Rightarrow> int \<Rightarrow> bool" where
  "py_eq_int (JInt n) k = (n = k)"
| "py_eq_int (JBool b) k = ((if b then 1 else 0) = k)"
| "py_eq_int (JFloat x) k = (x = of_int k)"
| "py_eq_int other k = False"

text \<open>
  The connection, an aiohttp \<open>WebSocketResponse\<close>: whether it is closed, the frames
  written to it and the close frame sent.  It is a library object; the model keeps what
  the emitter relies on: writing to a closed connection raises \<open>RuntimeError\<close> (the
  case the source marks ``ws closed (dirty)''), and closing twice changes nothing.
\<close>

record websocket =
  closed_ws :: bool
  sent :: "json list"
  close_frame :: "(int \<times> string) option"

definition send_json :: "json \<Rightarrow> websocket \<Rightarrow> error + websocket" where
  "send_json frame w =
     (if closed_ws w then Inl RuntimeError else Inr (w\<lparr>sent := sent w @ [frame]\<rparr>))"

definition ws_close :: "int \<Rightarrow> string \<Rightarrow> websocket \<Rightarrow> websocket" where
  "ws_close code message w =
     (if closed_ws w then w else w\<lparr>closed_ws := True, close_frame := Some (code, message)\<rparr>)"

text \<open>
  A \<open>Listener\<close> object.  Python compares and hashes listeners by identity; \<open>lid\<close> is that
  identity, and the sets of the emitter hold it.
\<close>

record listener =
  lid :: nat
  ws :: websocket
  user_id :: "int option"
  last_hb :: real

text \<open>
  \<open>Listener.notify\<close>.  \<open>send\<close> stands for \<open>self.ws.send_json\<close>, the method of the
  library's connection: whether it returns or raises, and what, is for the library to
  say, so the method is a parameter here.  Only \<open>RuntimeError\<close> is caught; any other
  exception leaves \<open>notify\<close> as it came.
\<close>

definition notify_with ::
  "(json \<Rightarrow> websocket \<Rightarrow> error + websocket) \<Rightarrow> Opcode \<Rightarrow> json \<Rightarrow> listener
     \<Rightarrow> (error + bool) \<times> listener" where
  "notify_with send opcode data l =
     (case (if data = JNull
            then send (JObj [(''op'', JInt (opcode_value opcode))]) (ws l)
            else send (JObj [(''op'', JInt (opcode_value opcode)), (''d'', data)]) (ws l)) of
        Inl e \<Rightarrow> if e = RuntimeError then (Inr False, l) else (Inl e, l)
      | Inr w \<Rightarrow> (Inr True, l\<lparr>ws := w\<rparr>))"

text \<open>\<open>notify\<close> over the connection modelled above.\<close>

definition notify :: "Opcode \<Rightarrow> json \<Rightarrow> listener \<Rightarrow> (error + bool) \<times> listener" where
  "notify = notify_with send_json"


text \<open>
  Modelled from the spec: the event classes of \<open>models/events.py\<close>, which is not among
  the sources.  An event carries a name and an opaque payload; a local event carries the
  channel it belongs to, an outer event the user it concerns.
\<close>

record event =
  ev_name :: string
  ev_payload :: json

text \<open>\<open>Listener.event_notify\<close>.\<close>

definition event_notify :: "event \<Rightarrow> listener \<Rightarrow> (error + bool) \<times> listener" where
  "event_notify ev l =
     (case send_json (JObj [(''op'', JInt (opcode_value DISPATCH)),
                            (''d'', ev_payload ev),
                            (''t'', JStr (ev_name ev))]) (ws l) of
        Inl e \<Rightarrow> if e = RuntimeError then (Inr False, l) else (Inl e, l)
      | Inr w \<Rightarrow> (Inr True, l\<lparr>ws := w\<rparr>))"

section \<open>The registry of the \<open>EventEmitter\<close>\<close>

text \<open>
  The three dictionaries of the emitter.  A dictionary is an association list in
  insertion order, read with \<open>map_of\<close> and written with \<open>AList.update\<close> and
  \<open>AList.delete\<close>; a Python set is a list that \<open>List.insert\<close> and \<open>removeAll\<close> keep free
  of duplicates.  As the methods use them, \<open>channels\<close> (\<open>_channels\<close>) maps a channel to
  its users, \<open>users\<close> (\<open>_users\<close>) a user to the channels of the snapshot taken when it
  identified, and \<open>listeners\<close> (\<open>_listeners\<close>) a user to its listeners.
\<close>

record emitter =
  channels :: "(int \<times> int list) list"
  users :: "(int \<times> int list) list"
  listeners :: "(int \<times> nat list) list"
  closing :: bool

definition new_emitter :: emitter where
  "new_emitter = \<lparr>channels = [], users = [], listeners = [], closing = False\<rparr>"

text \<open>The first loop of \<open>add_listener\<close>, over the channels fetched from the store.\<close>

fun add_channels :: "int \<Rightarrow> int list \<Rightarrow> (int \<times> int list) list \<Rightarrow> (int \<times> int list) list" where
  "add_channels uid [] chs = chs"
| "add_channels uid (channel_id # rest) chs =
     add_channels uid rest
       (case map_of chs channel_id of
          Some uids \<Rightarrow> AList.update channel_id (List.insert uid uids) chs
        | None \<Rightarrow> AList.update channel_id [uid] chs)"

text \<open>
  \<open>add_listener\<close>.  \<open>fetched\<close> is what the store returns for the user's \<open>channel_ids\<close>:
  \<open>None\<close> when there is no such value, and iterating over it raises \<open>TypeError\<close>.
\<close>

definition add_listener :: "listener \<Rightarrow> int list option \<Rightarrow> emitter \<Rightarrow> (error + unit) \<times> emitter" where
  "add_listener l fetched e =
     (case user_id l of
        None \<Rightarrow> (Inr (), e)
      | Some uid \<Rightarrow>
          (case fetched of
             None \<Rightarrow> (Inl TypeError, e)
           | Some chans \<Rightarrow>
               (let e1 = e\<lparr>channels := add_channels uid chans (channels e)\<rparr>;
                    e2 = e1\<lparr>users := AList.update uid (remdups chans) (users e1)\<rparr>;
                    e3 = (case map_of (listeners e2) uid of
                            Some ls \<Rightarrow>
                              e2\<lparr>listeners := AList.update uid (List.insert (lid l) ls) (listeners e2)\<rparr>
                          | None \<Rightarrow> e2\<lparr>listeners := AList.update uid [lid l] (listeners e2)\<rparr>)
                in (Inr (), e3))))"

text \<open>
  The loop of \<open>remove_listener\<close> over \<open>tuple(self._users[listener.user_id])\<close>.  Each
  subscript and each \<open>set.remove\<close> can raise \<open>KeyError\<close>.
\<close>

fun remove_channels :: "int \<Rightarrow> int list \<Rightarrow> emitter \<Rightarrow> (error + unit) \<times> emitter" where
  "remove_channels uid [] e = (Inr (), e)"
| "remove_channels uid (channel_id # rest) e =
     (case map_of (channels e) channel_id of
        None \<Rightarrow> (Inl KeyError, e)
      | Some uids \<Rightarrow>
          if uid \<notin> set uids then (Inl KeyError, e)
          else
            (let e1 = e\<lparr>channels := AList.update channel_id (removeAll uid uids) (channels e)\<rparr>;
                 e2 = (if removeAll uid uids = []
                       then e1\<lparr>channels := AList.delete channel_id (channels e1)\<rparr> else e1)
             in case map_of (users e2) uid of
                  None \<Rightarrow> (Inl KeyError, e2)
                | Some chans \<Rightarrow>
                    if channel_id \<notin> set chans then (Inl KeyError, e2)
                    else
                      (let e3 = e2\<lparr>users := AList.update uid (removeAll channel_id chans) (users e2)\<rparr>;
                           e4 = (if removeAll channel_id chans = []
                                 then e3\<lparr>users := AList.delete uid (users e3)\<rparr> else e3)
                       in remove_channels uid rest e4)))"

text \<open>\<open>remove_listener\<close>.\<close>

definition remove_listener :: "listener \<Rightarrow> emitter \<Rightarrow> (error + unit) \<times> emitter" where
  "remove_listener l e =
     (case user_id l of
        None \<Rightarrow> (Inr (), e)
      | Some uid \<Rightarrow>
          (case map_of (listeners e) uid of
             None \<Rightarrow> (Inr (), e)
           | Some ls \<Rightarrow>
               if lid l \<notin> set ls then (Inl KeyError, e)
               else
                 (let e1 = e\<lparr>listeners := AList.update uid (removeAll (lid l) ls) (listeners e)\<rparr>
                  in if removeAll (lid l) ls \<noteq> [] then (Inr (), e1)
                     else
                       (let e2 = e1\<lparr>listeners := AList.delete uid (listeners e1)\<rparr>
                        in case map_of (users e2) uid of
                             None \<Rightarrow> (Inl KeyError, e2)
                           | Some chans \<Rightarrow> remove_channels uid chans e2))))"

text \<open>\<open>Listener.close\<close>: deregister when \<open>cleanup\<close> is set, then close the connection.\<close>

definition close ::
  "CloseCode \<Rightarrow> string \<Rightarrow> bool \<Rightarrow> listener \<Rightarrow> emitter \<Rightarrow> (error + unit) \<times> listener \<times> emitter" where
  "close code message cleanup l e =
     (if cleanup then
        (case remove_listener l e of
           (Inl err, e') \<Rightarrow> (Inl err, l, e')
         | (Inr u, e') \<Rightarrow> (Inr (), l\<lparr>ws := ws_close (close_code_value code) message (ws l)\<rparr>, e'))
      else (Inr (), l\<lparr>ws := ws_close (close_code_value code) message (ws l)\<rparr>, e))"

section \<open>Handling inbound frames\<close>

text \<open>
  \<open>Listener._handle\<close>.  Parameters stand for what the method takes from outside:
  \<open>verify\<close> for \<open>Token.from_string\<close> followed by \<open>token.verify()\<close> (\<open>models/access_token.py\<close>
  is not among the sources) with \<open>Inr\<close> the \<open>user_id\<close> of a verified token and \<open>Inl\<close>
  the exception raised, \<open>ValueError\<close> when \<open>verify()\<close> is false; \<open>fetch\<close> for the
  \<open>channel_ids\<close> query of \<open>add_listener\<close>; \<open>now\<close> for \<open>time.time()\<close>.
\<close>

definition handle ::
  "(json \<Rightarrow> error + int) \<Rightarrow> (int \<Rightarrow> int list option) \<Rightarrow> real \<Rightarrow> json \<Rightarrow> listener \<Rightarrow> emitter
     \<Rightarrow> (error + unit) \<times> listener \<times> emitter" where
  "handle verify fetch now data l e =
     (case subscript data ''op'' of
        Inl err \<Rightarrow> (Inl err, l, e)
      | Inr op_field \<Rightarrow>
          if py_eq_int op_field (opcode_value HEARTBEAT) then
            (let l1 = l\<lparr>last_hb := now\<rparr>
             in case notify HEARTBEAT_ACK JNull l1 of
                  (Inl err, l2) \<Rightarrow> (Inl err, l2, e)
                | (Inr ok, l2) \<Rightarrow> (Inr (), l2, e))
          else if py_eq_int op_field (opcode_value IDENTIFY) then
            (case subscript data ''d'' of
               Inl err \<Rightarrow> (Inl err, l, e)
             | Inr d \<Rightarrow>
                 (case subscript d ''token'' of
                    Inl err \<Rightarrow> (Inl err, l, e)
                  | Inr token \<Rightarrow>
                      (case verify token of
                         Inl err \<Rightarrow>
                           if err = ValueError \<or> err = RuntimeError then
                             (case notify INVALIDATE_SESSION JNull l of
                                (Inl err', l1) \<Rightarrow> (Inl err', l1, e)
                              | (Inr ok, l1) \<Rightarrow> close BAD_TOKEN [] True l1 e)
                           else (Inl err, l, e)
                       | Inr uid \<Rightarrow>
                           (let l1 = l\<lparr>user_id := Some uid\<rparr>
                            in case add_listener l1 (fetch uid) e of
                                 (r, e1) \<Rightarrow> (r, l1, e1)))))
          else (Inr (), l, e))"

text \<open>
  The body of the loop of \<open>Listener.listen\<close> for one message.  \<open>frame\<close> is the outcome of
  \<open>json.loads(msg.data)\<close>: the decoded value, or the exception it raises.  Only
  \<open>KeyError\<close> is caught.
\<close>

definition listen_frame ::
  "(json \<Rightarrow> error + int) \<Rightarrow> (int \<Rightarrow> int list option) \<Rightarrow> real \<Rightarrow> error + json \<Rightarrow> listener
     \<Rightarrow> emitter \<Rightarrow> (error + unit) \<times> listener \<times> emitter" where
  "listen_frame verify fetch now frame l e =
     (case frame of
        Inl err \<Rightarrow> (Inl err, l, e)
      | Inr data \<Rightarrow>
          (case handle verify fetch now data l e of
             (r, l1, e1) \<Rightarrow>
               if r = Inl KeyError then close BAD_PAYLOAD [] True l1 e1 else (r, l1, e1)))"

section \<open>Heartbeat watcher\<close>

text \<open>
  \<open>Listener._check_hb\<close>.  The watcher runs beside the reading loop, so what it observes
  comes from outside: one \<open>tick\<close> per evaluation of the loop condition, holding the value
  of \<open>self.ws.closed\<close> there and, for the case that the body runs, \<open>time.time()\<close> and
  \<open>self._last_hb\<close> as read after the sleep.  Times are real numbers.
\<close>

record tick =
  seen_closed :: bool
  clock_now :: real
  seen_last_hb :: real

definition interval :: real where "interval = of_int HEARTBEAT_INTERVAL / 1000"

definition response_error_treshold :: real where "response_error_treshold = interval / 10"

definition expired :: "tick \<Rightarrow> bool" where
  "expired t \<longleftrightarrow> (clock_now t - seen_last_hb t) - interval > response_error_treshold"

text \<open>The two ways out of the loop.\<close>

datatype loop_exit = Closed_seen | Heartbeat_expired

text \<open>The \<open>while\<close> loop; \<open>None\<close> when the ticks end with the watcher still looping.\<close>

fun hb_loop :: "tick list \<Rightarrow> loop_exit option" where
  "hb_loop [] = None"
| "hb_loop (t # ts) =
     (if seen_closed t then Some Closed_seen
      else if expired t then Some Heartbeat_expired
      else hb_loop ts)"

text \<open>
  The watcher: the loop, then \<open>await self.close()\<close> on the listener and the registry as
  they are when the loop ends.
\<close>

definition check_hb ::
  "tick list \<Rightarrow> listener \<Rightarrow> emitter \<Rightarrow> ((error + unit) \<times> listener \<times> emitter) option" where
  "check_hb ticks l e =
     (case hb_loop ticks of
        None \<Rightarrow> None
      | Some how \<Rightarrow> Some (close NORMAL [] True l e))"

section \<open>Fan-out\<close>

text \<open>
  What a fan-out routine does, in order: taking and releasing \<open>self._lock\<close>, the calls of
  \<open>event_notify\<close> and the calls of \<open>Listener.close\<close>, each with the listener concerned.
\<close>

datatype action = Acquire | Release | EventNotify nat | CloseListener nat

text \<open>
  The state of a fan-out routine: the listener objects by identity, the local list
  \<open>to_close\<close> and the actions so far.
\<close>

record fanout =
  objs :: "nat \<Rightarrow> listener"
  to_close :: "nat list"
  trace :: "action list"

text \<open>The innermost loop: \<open>for listener in ...: if not await listener.event_notify(event)\<close>.\<close>

fun notify_listeners :: "event \<Rightarrow> nat list \<Rightarrow> fanout \<Rightarrow> (error + unit) \<times> fanout" where
  "notify_listeners ev [] f = (Inr (), f)"
| "notify_listeners ev (i # rest) f =
     (case event_notify ev (objs f i) of
        (Inl err, l') \<Rightarrow>
          (Inl err, f\<lparr>objs := (objs f)(i := l'), trace := trace f @ [EventNotify i]\<rparr>)
      | (Inr ok, l') \<Rightarrow>
          notify_listeners ev rest
            (f\<lparr>objs := (objs f)(i := l'),
               to_close := (if ok then to_close f else to_close f @ [i]),
               trace := trace f @ [EventNotify i]\<rparr>))"

text \<open>\<open>for user_id in ...: for listener in self._listeners[user_id]\<close>.\<close>

fun notify_users :: "event \<Rightarrow> emitter \<Rightarrow> int list \<Rightarrow> fanout \<Rightarrow> (error + unit) \<times> fanout" where
  "notify_users ev e [] f = (Inr (), f)"
| "notify_users ev e (uid # rest) f =
     (case map_of (listeners e) uid of
        None \<Rightarrow> (Inl KeyError, f)
      | Some ls \<Rightarrow>
          (case notify_listeners ev ls f of
             (Inl err, f') \<Rightarrow> (Inl err, f')
           | (Inr u, f') \<Rightarrow> notify_users ev e rest f'))"

text \<open>\<open>for channel_id in ...: for user_id in self._channels[channel_id]\<close>.\<close>

fun notify_channel_list :: "event \<Rightarrow> emitter \<Rightarrow> int list \<Rightarrow> fanout \<Rightarrow> (error + unit) \<times> fanout" where
  "notify_channel_list ev e [] f = (Inr (), f)"
| "notify_channel_list ev e (channel_id # rest) f =
     (case map_of (channels e) channel_id of
        None \<Rightarrow> (Inl KeyError, f)
      | Some uids \<Rightarrow>
          (case notify_users ev e uids f of
             (Inl err, f') \<Rightarrow> (Inl err, f')
           | (Inr u, f') \<Rightarrow> notify_channel_list ev e rest f'))"

text \<open>\<open>for listeners in self._listeners.values(): for listener in listeners\<close>.\<close>

fun notify_values :: "event \<Rightarrow> nat list list \<Rightarrow> fanout \<Rightarrow> (error + unit) \<times> fanout" where
  "notify_values ev [] f = (Inr (), f)"
| "notify_values ev (ls # rest) f =
     (case notify_listeners ev ls f of
        (Inl err, f') \<Rightarrow> (Inl err, f')
      | (Inr u, f') \<Rightarrow> notify_values ev rest f')"

text \<open>\<open>for listener in to_close: await listener.close()\<close>, after the lock is released.\<close>

fun close_all :: "nat list \<Rightarrow> fanout \<Rightarrow> emitter \<Rightarrow> (error + unit) \<times> fanout \<times> emitter" where
  "close_all [] f e = (Inr (), f, e)"
| "close_all (i # rest) f e =
     (case close NORMAL [] True (objs f i) e of
        (Inl err, l', e') \<Rightarrow>
          (Inl err, f\<lparr>objs := (objs f)(i := l'), trace := trace f @ [CloseListener i]\<rparr>, e')
      | (Inr u, l', e') \<Rightarrow>
          close_all rest (f\<lparr>objs := (objs f)(i := l'), trace := trace f @ [CloseListener i]\<rparr>) e')"

text \<open>
  The common shape of the three routines: the locked section \<open>body\<close> (leaving it, also
  by an exception, releases the lock), then the closing of the listeners collected.
\<close>

definition fan_out ::
  "(fanout \<Rightarrow> (error + unit) \<times> fanout) \<Rightarrow> (nat \<Rightarrow> listener) \<Rightarrow> emitter
     \<Rightarrow> (error + unit) \<times> fanout \<times> emitter" where
  "fan_out body os e =
     (case body \<lparr>objs = os, to_close = [], trace = [Acquire]\<rparr> of
        (r, f) \<Rightarrow>
          (let f' = f\<lparr>trace := trace f @ [Release]\<rparr>
           in case r of
                Inl err \<Rightarrow> (Inl err, f', e)
              | Inr u \<Rightarrow> close_all (to_close f') f' e))"

text \<open>\<open>notify_channel\<close>, for a local event of channel \<open>channel_id\<close>.\<close>

definition notify_channel ::
  "int \<Rightarrow> event \<Rightarrow> (nat \<Rightarrow> listener) \<Rightarrow> emitter \<Rightarrow> (error + unit) \<times> fanout \<times> emitter" where
  "notify_channel channel_id ev os e =
     fan_out (notify_users ev e
                (case map_of (channels e) channel_id of None \<Rightarrow> [] | Some uids \<Rightarrow> uids))
       os e"

text \<open>\<open>notify_channels\<close>, for an outer event of user \<open>uid\<close>.\<close>

definition notify_channels ::
  "int \<Rightarrow> event \<Rightarrow> (nat \<Rightarrow> listener) \<Rightarrow> emitter \<Rightarrow> (error + unit) \<times> fanout \<times> emitter" where
  "notify_channels uid ev os e =
     fan_out (notify_channel_list ev e
                (case map_of (users e) uid of None \<Rightarrow> [] | Some chans \<Rightarrow> chans))
       os e"

text \<open>\<open>notify_everyone\<close>, for a global event.\<close>

definition notify_everyone ::
  "event \<Rightarrow> (nat \<Rightarrow> listener) \<Rightarrow> emitter \<Rightarrow> (error + unit) \<times> fanout \<times> emitter" where
  "notify_everyone ev os e = fan_out (notify_values ev (map snd (listeners e))) os e"

text \<open>The listeners on which a routine called \<open>event_notify\<close>, in call order.\<close>

fun notified :: "action list \<Rightarrow> nat list" where
  "notified [] = []"
| "notified (EventNotify i # as) = i # notified as"
| "notified (a # as) = notified as"

section \<open>Sequences of registry calls\<close>

text \<open>
  A call of \<open>add_listener\<close>, with the listener and what the store returns for its user,
  or of \<open>remove_listener\<close>.  A run applies calls in order; a call that raises leaves
  the registry as it stood at the raise, and the run goes on.
\<close>

datatype call = AddListener listener "int list option" | RemoveListener listener

fun apply_call :: "call \<Rightarrow> emitter \<Rightarrow> emitter" where
  "apply_call (AddListener l fetched) e = snd (add_listener l fetched e)"
| "apply_call (RemoveListener l) e = snd (remove_listener l e)"

definition run :: "call list \<Rightarrow> emitter \<Rightarrow> emitter" where
  "run calls e = foldl (\<lambda>e' c. apply_call c e') e calls"

text \<open>The three indices read as sets: a missing key has the empty set.\<close>

definition members :: "emitter \<Rightarrow> int \<Rightarrow> int set" where
  "members e channel_id = (case map_of (channels e) channel_id of None \<Rightarrow> {} | Some us \<Rightarrow> set us)"

definition channels_of :: "emitter \<Rightarrow> int \<Rightarrow> int set" where
  "channels_of e uid = (case map_of (users e) uid of None \<Rightarrow> {} | Some cs \<Rightarrow> set cs)"

definition listeners_of :: "emitter \<Rightarrow> int \<Rightarrow> nat set" where
  "listeners_of e uid = (case map_of (listeners e) uid of None \<Rightarrow> {} | Some ls \<Rightarrow> set ls)"

text \<open>
  The invariant of the data model: a user is a member of a channel exactly when the
  channel is among the user's channels.
\<close>

definition membership_invariant :: "emitter \<Rightarrow> bool" where
  "membership_invariant e \<longleftrightarrow> (\<forall>uid c. uid \<in> members e c \<longleftrightarrow> c \<in> channels_of e uid)"

text \<open>No dictionary holds an empty set.\<close>

definition no_empty_entry :: "emitter \<Rightarrow> bool" where
  "no_empty_entry e \<longleftrightarrow>
     [] \<notin> snd ` set (channels e) \<and> [] \<notin> snd ` set (users e) \<and> [] \<notin> snd ` set (listeners e)"

text \<open>
  In the words of the data model: after a sequence of calls, the pairs of a listener and
  a user id under which the listener was added and has not been removed since.  An
  \<open>add_listener\<close> call adds when the listener has a user id and the store answered.
\<close>

fun record_call :: "call \<Rightarrow> (nat \<times> int) set \<Rightarrow> (nat \<times> int) set" where
  "record_call (AddListener l fetched) S =
     (case user_id l of
        None \<Rightarrow> S
      | Some uid \<Rightarrow> (case fetched of None \<Rightarrow> S | Some chans \<Rightarrow> insert (lid l, uid) S))"
| "record_call (RemoveListener l) S =
     (case user_id l of None \<Rightarrow> S | Some uid \<Rightarrow> S - {(lid l, uid)})"

definition registered :: "call list \<Rightarrow> (nat \<times> int) set" where
  "registered calls = foldl (\<lambda>S c. record_call c S) {} calls"

text \<open>
  A call agrees with \<open>store\<close> when it is a removal, or an \<open>add_listener\<close> that does not
  reach the indices, or one whose fetched channels are not empty and are the set
  \<open>store uid\<close>.
\<close>

fun snapshot_agrees :: "(int \<Rightarrow> int set) \<Rightarrow> call \<Rightarrow> bool" where
  "snapshot_agrees store (AddListener l fetched) =
     (case user_id l of
        None \<Rightarrow> True
      | Some uid \<Rightarrow> (case fetched of None \<Rightarrow> True | Some chans \<Rightarrow> chans \<noteq> [] \<and> set chans = store uid))"
| "snapshot_agrees store (RemoveListener l) = True"

text \<open>
  What every run from the empty registry maintains: keys occur once; a user's channels
  are free of duplicates and each has the user as a member; a user with channels has
  a listener entry, and a user with a listener entry has a channel entry.
\<close>

definition sound :: "emitter \<Rightarrow> bool" where
  "sound e \<longleftrightarrow>
     distinct (map fst (channels e)) \<and> distinct (map fst (users e))
     \<and> distinct (map fst (listeners e))
     \<and> (\<forall>uid cs. map_of (users e) uid = Some cs \<longrightarrow>
            distinct cs \<and> (\<forall>c \<in> set cs. uid \<in> members e c))
     \<and> (\<forall>uid cs. map_of (users e) uid = Some cs \<longrightarrow> cs \<noteq> [] \<longrightarrow>
            map_of (listeners e) uid \<noteq> None)
     \<and> (\<forall>uid. map_of (listeners e) uid \<noteq> None \<longrightarrow> map_of (users e) uid \<noteq> None)"

text \<open>
  What a run maintains when every call agrees with \<open>store\<close>: a user's channels are
  those of the store and not empty; a channel's members are not empty and have the
  channel among their channels; no listener set is empty.
\<close>

definition tidy :: "(int \<Rightarrow> int set) \<Rightarrow> emitter \<Rightarrow> bool" where
  "tidy store e \<longleftrightarrow>
     (\<forall>uid cs. map_of (users e) uid = Some cs \<longrightarrow> cs \<noteq> [] \<and> set cs = store uid)
     \<and> (\<forall>c us. map_of (channels e) c = Some us \<longrightarrow>
            us \<noteq> [] \<and> (\<forall>uid \<in> set us. c \<in> channels_of e uid))
     \<and> (\<forall>uid ls. map_of (listeners e) uid = Some ls \<longrightarrow> ls \<noteq> [])"

text \<open>The entry of a channel after a user has been taken out of it.\<close>

definition drop_member :: "int \<Rightarrow> int list option \<Rightarrow> int list option" where
  "drop_member uid entry =
     (case entry of
        None \<Rightarrow> None
      | Some us \<Rightarrow> if removeAll uid us = [] then None else Some (removeAll uid us))"

text \<open>Concrete values for the examples: an open connection, a listener, a registry.\<close>

definition demo_ws :: websocket where
  "demo_ws = \<lparr>closed_ws = False, sent = [], close_frame = None\<rparr>"

definition demo_listener :: "nat \<Rightarrow> int option \<Rightarrow> listener" where
  "demo_listener i uid = \<lparr>lid = i, ws = demo_ws, user_id = uid, last_hb = 0\<rparr>"

definition two_devices :: emitter where
  "two_devices =
     run [AddListener (demo_listener 1 (Some 7)) (Some [10, 20]),
          AddListener (demo_listener 2 (Some 7)) (Some [10, 20])] new_emitter"

text \<open>A verifier that rejects every token, and a store with no channels for anyone.\<close>

definition reject_all :: "json \<Rightarrow> error + int" where
  "reject_all token = Inl ValueError"

definition no_channels :: "int \<Rightarrow> int list option" where
  "no_channels uid = Some []"

text \<open>Two ticks: one with a heartbeat 35 seconds old, one with the connection closed.\<close>

definition quiet_tick :: tick where
  "quiet_tick = \<lparr>seen_closed = False, clock_now = 40, seen_last_hb = 5\<rparr>"

definition closed_tick :: tick where
  "closed_tick = \<lparr>seen_closed = True, clock_now = 0, seen_last_hb = 0\<rparr>"

text \<open>An event, and listener objects of user 7 of which listener 1 has lost its peer.\<close>

definition demo_event :: event where
  "demo_event = \<lparr>ev_name = ''MESSAGE_CREATE'', ev_payload = JStr ''hello''\<rparr>"

definition demo_objs :: "nat \<Rightarrow> listener" where
  "demo_objs i =
     (if i = 1 then (demo_listener 1 (Some 7))\<lparr>ws := demo_ws\<lparr>closed_ws := True\<rparr>\<rparr>
      else demo_listener i (Some 7))"



text \<open>
  Two histories of user 7.  In the first the user belongs to no channel when its
  listener registers.  In the second the user registers listener 1 while in channels 10
  and 20, leaves channel 20, and registers listener 2.
\<close>

definition lonely_user :: call where
  "lonely_user = AddListener (demo_listener 1 (Some 7)) (Some [])"

definition left_channel :: "call list" where
  "left_channel =
     [AddListener (demo_listener 1 (Some 7)) (Some [10, 20]),
      AddListener (demo_listener 2 (Some 7)) (Some [10])]"

section \<open>Snowflake generator: results\<close>

lemma SEQUENCE_MASK_eq: "SEQUENCE_MASK = 4095"
  by (simp add: SEQUENCE_MASK_def SEQUENCE_BITS_def mask_eq_exp_minus_1)

lemma MAX_WORKER_ID_eq: "MAX_WORKER_ID = 31"
  by (simp add: MAX_WORKER_ID_def WORKER_BITS_def mask_eq_exp_minus_1)

lemma MAX_DATACENTER_ID_eq: "MAX_DATACENTER_ID = 31"
  by (simp add: MAX_DATACENTER_ID_def DATACENTER_BITS_def mask_eq_exp_minus_1)

lemma or_fields_eq_sum:
  fixes a d w s :: int
  shows "((push_bit 22 a OR push_bit 17 (take_bit 5 d)) OR push_bit 12 (take_bit 5 w))
            OR take_bit 12 s
         = push_bit 22 a + push_bit 17 (take_bit 5 d) + push_bit 12 (take_bit 5 w)
            + take_bit 12 s"
proof -
  have 1: "push_bit 22 a OR push_bit 17 (take_bit 5 d)
             = push_bit 22 a + push_bit 17 (take_bit 5 d)"
    by (rule disjunctive_add [symmetric]) (auto simp: bit_simps)
  have 2: "(push_bit 22 a OR push_bit 17 (take_bit 5 d)) OR push_bit 12 (take_bit 5 w)
      = (push_bit 22 a OR push_bit 17 (take_bit 5 d)) + push_bit 12 (take_bit 5 w)"
    by (rule disjunctive_add [symmetric]) (auto simp: bit_simps)
  have 3: "((push_bit 22 a OR push_bit 17 (take_bit 5 d)) OR push_bit 12 (take_bit 5 w))
             OR take_bit 12 s
      = ((push_bit 22 a OR push_bit 17 (take_bit 5 d)) OR push_bit 12 (take_bit 5 w))
             + take_bit 12 s"
    by (rule disjunctive_add [symmetric]) (auto simp: bit_simps)
  show ?thesis using 1 2 3 by presburger
qed

lemma compose_id_eq_sum:
  assumes "well_formed g"
  shows "compose_id epoch t g =
           (t - epoch) * 4194304 + datacenter_id g * 131072 + worker_id g * 4096 + sequence g"
proof -
  from assms have d: "take_bit 5 (datacenter_id g) = datacenter_id g"
    and w: "take_bit 5 (worker_id g) = worker_id g"
    and s: "take_bit 12 (sequence g) = sequence g"
    by (simp_all add: well_formed_def take_bit_int_eq_self MAX_WORKER_ID_eq
          MAX_DATACENTER_ID_eq SEQUENCE_MASK_eq)
  show ?thesis
    using or_fields_eq_sum [of "t - epoch" "datacenter_id g" "worker_id g" "sequence g"]
    by (simp add: compose_id_def d w s TIMESTAMP_SHIFT_def DATACENTER_SHIFT_def
          WORKER_SHIFT_def SEQUENCE_BITS_def WORKER_BITS_def DATACENTER_BITS_def
          push_bit_eq_mult)
qed

lemma sequence_step:
  assumes "0 \<le> (s::int)" "s \<le> 4095"
  shows "(s + 1) AND SEQUENCE_MASK = (if s = 4095 then 0 else s + 1)"
proof -
  have "(s + 1) AND SEQUENCE_MASK = (s + 1) AND mask 12"
    by (simp add: mask_eq_exp_minus_1 SEQUENCE_MASK_eq)
  also have "\<dots> = (s + 1) mod 2 ^ 12"
    by (simp add: take_bit_eq_mod flip: take_bit_eq_mask)
  finally show ?thesis using assms by auto
qed

lemma til_next_ms_greater: "til_next_ms l clock = Some (t, rest) \<Longrightarrow> l < t"
  by (induction clock) (auto split: if_splits)

lemma til_next_ms_replicate: "til_next_ms t (replicate m t @ rest) = til_next_ms t rest"
  by (induction m) auto

lemma new_generator_well_formed: "new_generator w d = Inr g \<Longrightarrow> well_formed g"
  by (auto simp: new_generator_def well_formed_def SEQUENCE_MASK_eq split: if_splits)

lemma gen_id_raises: "gen_id epoch g clock = Some (Inl e, g', rest) \<Longrightarrow> g' = g"
  by (auto simp: gen_id_def emit_id_def Let_def split: list.splits if_splits option.splits)

lemma gen_id_returns:
  assumes "well_formed g" and "gen_id epoch g clock = Some (Inr i, g', rest)"
  shows "well_formed g' \<and> i = rank epoch g' \<and> rank epoch g < rank epoch g'"
proof -
  from assms(1) have s: "0 \<le> sequence g" "sequence g \<le> 4095"
    by (simp_all add: well_formed_def SEQUENCE_MASK_eq)
  let ?t = "last_timestamp g'"
  from assms(2) have g': "g' = g\<lparr>sequence := sequence g', last_timestamp := ?t\<rparr>"
    and i: "i = compose_id epoch ?t g'"
    and cases: "(last_timestamp g < ?t \<and> sequence g' = 0) \<or>
       (last_timestamp g = ?t \<and> sequence g' = sequence g + 1 \<and> sequence g < 4095)"
    using s
    by (auto simp: gen_id_def emit_id_def Let_def sequence_step
        split: list.splits if_splits option.splits)
       (erule til_next_ms_greater)
  have wf: "well_formed g'"
    using assms(1) cases by (subst g') (auto simp: well_formed_def SEQUENCE_MASK_eq)
  have "i = rank epoch g'"
    using compose_id_eq_sum [OF wf, of epoch ?t] by (simp add: i rank_def)
  moreover have "worker_id g' = worker_id g" "datacenter_id g' = datacenter_id g"
    by (subst g', simp)+
  then have "rank epoch g < rank epoch g'"
    using cases s by (auto simp: rank_def)
  ultimately show ?thesis using wf by simp
qed

lemma returned_append: "returned (xs @ ys) = returned xs @ returned ys"
  by (induction xs rule: returned.induct) auto

lemma gen_ids_increasing:
  assumes "well_formed g" and "gen_ids epoch n g clock = Some (outs, g', rest)"
  shows "sorted_wrt (<) (returned outs) \<and> (\<forall>i \<in> set (returned outs). rank epoch g < i)
           \<and> well_formed g'"
  using assms
proof (induction n arbitrary: g clock outs)
  case 0
  then show ?case by simp
next
  case (Suc n)
  from Suc.prems(2) obtain r g1 clock1 rs
    where step: "gen_id epoch g clock = Some (r, g1, clock1)"
      and run: "gen_ids epoch n g1 clock1 = Some (rs, g', rest)"
      and outs: "outs = r # rs"
    by (auto split: option.splits)
  show ?case
  proof (cases r)
    case (Inl e)
    with step have "g1 = g" by (auto dest: gen_id_raises)
    with Suc.IH [OF _ run] Suc.prems(1) show ?thesis
      by (simp add: outs Inl)
  next
    case (Inr i)
    with step Suc.prems(1) have wf: "well_formed g1" and i: "i = rank epoch g1"
      and lt: "rank epoch g < rank epoch g1"
      by (auto dest: gen_id_returns)
    from Suc.IH [OF wf run] show ?thesis
      using i lt by (auto simp: outs Inr)
  qed
qed

lemma gen_ids_add:
  "gen_ids epoch (m + n) g clock =
     (case gen_ids epoch m g clock of
        None \<Rightarrow> None
      | Some (rs, g', clock') \<Rightarrow>
          (case gen_ids epoch n g' clock' of
             None \<Rightarrow> None
           | Some (rs', g'', clock'') \<Rightarrow> Some (rs @ rs', g'', clock'')))"
  by (induction m arbitrary: g clock) (auto split: option.splits)

text \<open>Calls at an unchanged reading, after a call at that reading.\<close>

lemma gen_ids_same_reading:
  assumes "well_formed g" and "last_timestamp g = t" and "sequence g + int n \<le> 4095"
  shows "gen_ids epoch n g (replicate n t @ rest) =
           Some (map (\<lambda>k. Inr (compose_id epoch t (g\<lparr>sequence := sequence g + 1 + int k\<rparr>))) [0..<n],
                 g\<lparr>sequence := sequence g + int n\<rparr>, rest)"
  using assms
proof (induction n arbitrary: g)
  case 0
  then show ?case by simp
next
  case (Suc n)
  let ?g1 = "g\<lparr>sequence := sequence g + 1\<rparr>"
  from Suc.prems have s: "0 \<le> sequence g" "sequence g < 4095"
    by (simp_all add: well_formed_def)
  have same: "?g1\<lparr>last_timestamp := t\<rparr> = ?g1"
    unfolding Suc.prems(2) [symmetric] by simp
  have step: "gen_id epoch g (replicate (Suc n) t @ rest) =
      Some (Inr (compose_id epoch t ?g1), ?g1, replicate n t @ rest)"
    using Suc.prems(2) s by (simp add: gen_id_def emit_id_def Let_def sequence_step same)
  have wf: "well_formed ?g1"
    using Suc.prems(1) s by (simp add: well_formed_def SEQUENCE_MASK_eq)
  have "gen_ids epoch n ?g1 (replicate n t @ rest) =
           Some (map (\<lambda>k. Inr (compose_id epoch t (?g1\<lparr>sequence := sequence ?g1 + 1 + int k\<rparr>))) [0..<n],
                 ?g1\<lparr>sequence := sequence ?g1 + int n\<rparr>, rest)"
    using Suc.prems by (intro Suc.IH wf) simp_all
  then show ?case
    using step by (simp add: upt_conv_Cons map_Suc_upt [symmetric] add.commute add.left_commute del: upt_Suc replicate_Suc)
qed

lemma til_next_ms_consumes: "til_next_ms l clock = Some (t, rest) \<Longrightarrow> length rest < length clock"
  by (induction clock) (auto split: if_splits)

lemma gen_id_consumes: "gen_id epoch g clock = Some (r, g', rest) \<Longrightarrow> length rest < length clock"
  by (auto simp: gen_id_def emit_id_def Let_def split: list.splits if_splits option.splits
      dest: til_next_ms_consumes)

lemma gen_ids_consumes:
  "gen_ids epoch n g clock = Some (outs, g', rest) \<Longrightarrow> n + length rest \<le> length clock"
proof (induction n arbitrary: g clock outs)
  case 0
  then show ?case by simp
next
  case (Suc n)
  from Suc.prems obtain r g1 clock1 rs
    where step: "gen_id epoch g clock = Some (r, g1, clock1)"
      and run: "gen_ids epoch n g1 clock1 = Some (rs, g', rest)"
    by (auto split: option.splits)
  from Suc.IH [OF run] gen_id_consumes [OF step] show ?case by simp
qed

lemma gen_id_fresh_reading:
  "last_timestamp g < t \<Longrightarrow>
     gen_id epoch g (t # rest) =
       Some (Inr (compose_id epoch t (g\<lparr>sequence := 0\<rparr>)),
             g\<lparr>sequence := 0, last_timestamp := t\<rparr>, rest)"
  by (simp add: gen_id_def emit_id_def compose_id_def)

lemma gen_ids_one_millisecond:
  assumes "well_formed g" and "last_timestamp g < t" and "n \<le> 4096"
  shows "gen_ids epoch n g (replicate n t @ rest) =
           Some (map (\<lambda>k. Inr (compose_id epoch t (g\<lparr>sequence := int k\<rparr>))) [0..<n],
                 (if n = 0 then g else g\<lparr>sequence := int n - 1, last_timestamp := t\<rparr>), rest)"
proof (cases n)
  case 0
  then show ?thesis by simp
next
  case (Suc m)
  let ?g1 = "g\<lparr>sequence := 0, last_timestamp := t\<rparr>"
  have wf: "well_formed ?g1"
    using assms(1) by (simp add: well_formed_def SEQUENCE_MASK_eq)
  have "gen_ids epoch m ?g1 (replicate m t @ rest) =
           Some (map (\<lambda>k. Inr (compose_id epoch t (?g1\<lparr>sequence := sequence ?g1 + 1 + int k\<rparr>))) [0..<m],
                 ?g1\<lparr>sequence := sequence ?g1 + int m\<rparr>, rest)"
    using assms(3) Suc by (intro gen_ids_same_reading wf) simp_all
  moreover have "compose_id epoch t (g\<lparr>last_timestamp := t, sequence := s\<rparr>)
      = compose_id epoch t (g\<lparr>sequence := s\<rparr>)" for s
    by (simp add: compose_id_def)
  ultimately show ?thesis
    using gen_id_fresh_reading [OF assms(2), of epoch "replicate m t @ rest"]
    by (simp add: Suc upt_conv_Cons map_Suc_upt [symmetric] add.commute del: upt_Suc)
qed

lemma gen_id_blocks:
  "last_timestamp g = t \<Longrightarrow> sequence g = 4095 \<Longrightarrow> gen_id epoch g (replicate m t) = None"
  using til_next_ms_replicate [of t _ "[]"]
  by (cases m) (simp_all add: gen_id_def SEQUENCE_MASK_eq)

lemma gen_ids_blocked:
  assumes "well_formed g" and "last_timestamp g < t"
  shows "gen_ids epoch (4097 + k) g (replicate m t) = None"
proof (cases "m < 4096")
  case True
  show ?thesis
  proof (rule ccontr)
    assume "gen_ids epoch (4097 + k) g (replicate m t) \<noteq> None"
    then obtain outs g' rest
      where "gen_ids epoch (4097 + k) g (replicate m t) = Some (outs, g', rest)"
      by auto
    from gen_ids_consumes [OF this] True show False by simp
  qed
next
  case False
  then obtain m' where m: "m = 4096 + m'"
    by (metis le_add_diff_inverse not_less)
  have split: "replicate m t = replicate 4096 t @ replicate m' t"
    by (simp add: m replicate_add)
  have n: "4097 + k = 4096 + Suc k" by simp
  show ?thesis
    unfolding n gen_ids_add split
    using gen_ids_one_millisecond [OF assms, of 4096 epoch "replicate m' t"]
    by (simp add: gen_id_blocks)
qed

lemma compose_id_fields:
  assumes "well_formed g"
  shows "drop_bit SEQUENCE_BITS (compose_id epoch t g)
           = drop_bit SEQUENCE_BITS (compose_id epoch t (g\<lparr>sequence := 0\<rparr>))"
    and "take_bit SEQUENCE_BITS (compose_id epoch t g) = sequence g"
proof -
  from assms have wf0: "well_formed (g\<lparr>sequence := 0\<rparr>)"
    by (simp add: well_formed_def SEQUENCE_MASK_eq)
  from assms have s: "0 \<le> sequence g" "sequence g < 4096"
    by (simp_all add: well_formed_def SEQUENCE_MASK_eq)
  define hi where "hi = (t - epoch) * 1024 + datacenter_id g * 32 + worker_id g"
  have a: "compose_id epoch t g = hi * 4096 + sequence g"
    by (simp add: compose_id_eq_sum [OF assms] hi_def)
  have b: "compose_id epoch t (g\<lparr>sequence := 0\<rparr>) = hi * 4096"
    by (simp add: compose_id_eq_sum [OF wf0] hi_def)
  show "drop_bit SEQUENCE_BITS (compose_id epoch t g)
           = drop_bit SEQUENCE_BITS (compose_id epoch t (g\<lparr>sequence := 0\<rparr>))"
    unfolding a b using s by (simp add: drop_bit_eq_div SEQUENCE_BITS_def)
  show "take_bit SEQUENCE_BITS (compose_id epoch t g) = sequence g"
    unfolding a using s by (simp add: take_bit_eq_mod SEQUENCE_BITS_def)
qed

text \<open>
  Claim C5.  Whenever the clock reading is strictly below the recorded
  \<open>last_timestamp\<close>, \<open>gen_id\<close> raises \<open>RuntimeError\<close>, returns no identifier, and leaves
  the generator (sequence and last timestamp included) as it was.
\<close>

theorem gen_id_clock_backwards:
  "timestamp < last_timestamp g \<Longrightarrow>
     gen_id epoch g (timestamp # clock) = Some (Inl RuntimeError, g, clock)"
  by (simp add: gen_id_def)

theorem gen_id_clock_backwards_witness:
  "(5::int) < last_timestamp \<lparr>worker_id = 1, datacenter_id = 2, sequence = 7, last_timestamp = 9\<rparr>
   \<and> gen_id 0 \<lparr>worker_id = 1, datacenter_id = 2, sequence = 7, last_timestamp = 9\<rparr> [5, 10]
       = Some (Inl RuntimeError,
               \<lparr>worker_id = 1, datacenter_id = 2, sequence = 7, last_timestamp = 9\<rparr>, [10])"
  using gen_id_clock_backwards
    [of 5 "\<lparr>worker_id = 1, datacenter_id = 2, sequence = 7, last_timestamp = 9\<rparr>" 0 "[10]"]
  by simp

text \<open>
  Claim C4, as amended.  A fresh generator whose clock reads the same value \<open>t\<close> at
  every call returns at most 4096 identifiers: for \<open>n \<le> 4096\<close> calls the identifiers
  are those of sequence numbers \<open>0 .. n - 1\<close>, strictly increasing, equal above the
  twelve sequence bits and carrying the sequence number in them; call 4097 does not
  return however many further readings show \<open>t\<close>.  Whatever the clock does, the
  identifiers one generator returns are strictly increasing, so no two are equal.
\<close>

theorem ids_within_one_millisecond:
  assumes "new_generator w d = Inr g" and "0 \<le> t"
  shows "(\<forall>n rest. n \<le> 4096 \<longrightarrow>
            (\<exists>g'. gen_ids epoch n g (replicate n t @ rest) =
               Some (map (\<lambda>k. Inr (compose_id epoch t (g\<lparr>sequence := int k\<rparr>))) [0..<n],
                     g', rest)))
         \<and> (\<forall>j k. 0 \<le> j \<and> j < k \<and> k < 4096 \<longrightarrow>
               compose_id epoch t (g\<lparr>sequence := j\<rparr>) < compose_id epoch t (g\<lparr>sequence := k\<rparr>)
               \<and> drop_bit SEQUENCE_BITS (compose_id epoch t (g\<lparr>sequence := j\<rparr>))
                   = drop_bit SEQUENCE_BITS (compose_id epoch t (g\<lparr>sequence := k\<rparr>))
               \<and> take_bit SEQUENCE_BITS (compose_id epoch t (g\<lparr>sequence := k\<rparr>)) = k)
         \<and> (\<forall>m. gen_ids epoch 4097 g (replicate m t) = None)
         \<and> (\<forall>n clock outs g' rest.
               gen_ids epoch n g clock = Some (outs, g', rest) \<longrightarrow>
               sorted_wrt (<) (returned outs))"
proof -
  from assms(1) have wf: "well_formed g"
    by (rule new_generator_well_formed)
  from assms have lt: "last_timestamp g < t"
    by (auto simp: new_generator_def split: if_splits)
  have wfs: "well_formed (g\<lparr>sequence := s\<rparr>)" if "0 \<le> s" "s < 4096" for s
    using wf that by (simp add: well_formed_def SEQUENCE_MASK_eq)
  have 1: "\<exists>g'. gen_ids epoch n g (replicate n t @ rest) =
               Some (map (\<lambda>k. Inr (compose_id epoch t (g\<lparr>sequence := int k\<rparr>))) [0..<n],
                     g', rest)" if "n \<le> 4096" for n rest
    using gen_ids_one_millisecond [OF wf lt that, of epoch rest] by blast
  have 2: "compose_id epoch t (g\<lparr>sequence := j\<rparr>) < compose_id epoch t (g\<lparr>sequence := k\<rparr>)
               \<and> drop_bit SEQUENCE_BITS (compose_id epoch t (g\<lparr>sequence := j\<rparr>))
                   = drop_bit SEQUENCE_BITS (compose_id epoch t (g\<lparr>sequence := k\<rparr>))
               \<and> take_bit SEQUENCE_BITS (compose_id epoch t (g\<lparr>sequence := k\<rparr>)) = k"
    if "0 \<le> j" "j < k" "k < 4096" for j k
  proof -
    have wj: "well_formed (g\<lparr>sequence := j\<rparr>)" and wk: "well_formed (g\<lparr>sequence := k\<rparr>)"
      using that by (auto intro: wfs)
    have "compose_id epoch t (g\<lparr>sequence := j\<rparr>) < compose_id epoch t (g\<lparr>sequence := k\<rparr>)"
      using that by (simp add: compose_id_eq_sum [OF wj] compose_id_eq_sum [OF wk])
    moreover have "drop_bit SEQUENCE_BITS (compose_id epoch t (g\<lparr>sequence := j\<rparr>))
                   = drop_bit SEQUENCE_BITS (compose_id epoch t (g\<lparr>sequence := k\<rparr>))"
      using compose_id_fields(1) [OF wj, of epoch t] compose_id_fields(1) [OF wk, of epoch t]
      by simp
    moreover have "take_bit SEQUENCE_BITS (compose_id epoch t (g\<lparr>sequence := k\<rparr>)) = k"
      using compose_id_fields(2) [OF wk, of epoch t] by simp
    ultimately show ?thesis by blast
  qed
  have 3: "gen_ids epoch 4097 g (replicate m t) = None" for m
    using gen_ids_blocked [OF wf lt, of epoch 0 m] by simp
  have 4: "sorted_wrt (<) (returned outs)"
    if "gen_ids epoch n g clock = Some (outs, g', rest)" for n clock outs g' rest
    using gen_ids_increasing [OF wf that] by blast
  from 1 2 3 4 show ?thesis by blast
qed

theorem ids_within_one_millisecond_witness:
  "new_generator 0 0 = Inr \<lparr>worker_id = 0, datacenter_id = 0, sequence = 0, last_timestamp = - 1\<rparr>
   \<and> (0::int) \<le> 1000
   \<and> gen_ids 0 4097 \<lparr>worker_id = 0, datacenter_id = 0, sequence = 0, last_timestamp = - 1\<rparr>
        (replicate 5000 1000) = None
   \<and> (\<exists>g'. gen_ids 0 3 \<lparr>worker_id = 0, datacenter_id = 0, sequence = 0, last_timestamp = - 1\<rparr>
        [1000, 1000, 1000] = Some ([Inr 4194304000, Inr 4194304001, Inr 4194304002], g', []))"
proof -
  let ?g = "\<lparr>worker_id = 0, datacenter_id = 0, sequence = 0, last_timestamp = - 1\<rparr>"
  have new: "new_generator 0 0 = Inr ?g"
    by (simp add: new_generator_def MAX_WORKER_ID_eq MAX_DATACENTER_ID_eq)
  have t: "(0::int) \<le> 1000" by simp
  note main = ids_within_one_millisecond [OF new t, of 0]
  from main have "gen_ids 0 4097 ?g (replicate 5000 1000) = None"
    by blast
  moreover from main have "n \<le> 4096 \<Longrightarrow> \<exists>g'. gen_ids 0 n ?g (replicate n 1000 @ []) =
      Some (map (\<lambda>k. Inr (compose_id 0 1000 (?g\<lparr>sequence := int k\<rparr>))) [0..<n], g', [])" for n
    by blast
  from this [of 3] have "\<exists>g'. gen_ids 0 3 ?g [1000, 1000, 1000] =
      Some ([Inr 4194304000, Inr 4194304001, Inr 4194304002], g', [])"
    by (simp add: numeral_3_eq_3 upt_rec compose_id_def TIMESTAMP_SHIFT_def DATACENTER_SHIFT_def
        WORKER_SHIFT_def SEQUENCE_BITS_def WORKER_BITS_def DATACENTER_BITS_def push_bit_eq_mult)
  ultimately show ?thesis using new t by blast
qed

text \<open>
  Claim C4 as stated fails: with a clock that shows the same millisecond throughout (a
  million readings of it here), a fresh generator does not complete 10,000 calls.
\<close>

theorem ten_thousand_ids_counterexample:
  "gen_ids 0 10000 \<lparr>worker_id = 0, datacenter_id = 0, sequence = 0, last_timestamp = - 1\<rparr>
     (replicate 1000000 1000) = None"
proof -
  let ?g = "\<lparr>worker_id = 0, datacenter_id = 0, sequence = 0, last_timestamp = - 1\<rparr>"
  have wf: "well_formed ?g"
    by (simp add: well_formed_def MAX_WORKER_ID_eq MAX_DATACENTER_ID_eq SEQUENCE_MASK_eq)
  have lt: "last_timestamp ?g < 1000" by simp
  from gen_ids_blocked [OF wf lt, of 0 5903 1000000] show ?thesis by simp
qed

section \<open>Registry: what the calls do to the indices\<close>

lemma insert_nonempty: "List.insert x xs \<noteq> []"
  by (auto simp: List.insert_def)

lemma map_of_add_channels:
  "map_of (add_channels uid cs chs) c =
     (if c \<in> set cs
      then Some (List.insert uid (case map_of chs c of None \<Rightarrow> [] | Some us \<Rightarrow> us))
      else map_of chs c)"
proof (induction cs arbitrary: chs)
  case Nil
  then show ?case by simp
next
  case (Cons a cs)
  show ?case
    by (cases "map_of chs a") (auto simp: Cons.IH update_conv')
qed

lemma distinct_add_channels:
  "distinct (map fst chs) \<Longrightarrow> distinct (map fst (add_channels uid cs chs))"
  by (induction cs arbitrary: chs) (auto simp: distinct_update split: option.splits)

lemma members_add_channels:
  "members (e\<lparr>channels := add_channels uid cs (channels e)\<rparr>) c =
     (if c \<in> set cs then insert uid (members e c) else members e c)"
  by (auto simp: members_def map_of_add_channels split: option.splits)

lemma remove_channels_effect:
  assumes "distinct cs" and "cs \<noteq> []"
    and "map_of (users e) uid = Some chans" and "set chans = set cs"
    and "\<forall>c \<in> set cs. uid \<in> members e c"
  shows "\<exists>e'. remove_channels uid cs e = (Inr (), e')
           \<and> listeners e' = listeners e \<and> closing e' = closing e
           \<and> map_of (users e') = (map_of (users e))(uid := None)
           \<and> map_of (channels e') =
               (\<lambda>c. if c \<in> set cs then drop_member uid (map_of (channels e) c)
                    else map_of (channels e) c)
           \<and> (distinct (map fst (channels e)) \<longrightarrow> distinct (map fst (channels e')))
           \<and> (distinct (map fst (users e)) \<longrightarrow> distinct (map fst (users e')))"
  using assms
proof (induction cs arbitrary: e chans)
  case Nil
  then show ?case by simp
next
  case (Cons c cs)
  from Cons.prems(5) obtain us where us: "map_of (channels e) c = Some us" "uid \<in> set us"
    by (auto simp: members_def split: option.splits)
  define e2 where "e2 =
     (if removeAll uid us = [] then e\<lparr>channels := AList.delete c (channels e)\<rparr>
      else e\<lparr>channels := AList.update c (removeAll uid us) (channels e)\<rparr>)"
  define e4 where "e4 =
     (if removeAll c chans = [] then e2\<lparr>users := AList.delete uid (users e2)\<rparr>
      else e2\<lparr>users := AList.update uid (removeAll c chans) (users e2)\<rparr>)"
  have c_in: "c \<in> set chans"
    using Cons.prems(4) by simp
  have users2: "users e2 = users e" "listeners e2 = listeners e" "closing e2 = closing e"
    by (simp_all add: e2_def)
  have step: "remove_channels uid (c # cs) e = remove_channels uid cs e4"
    using us c_in Cons.prems(3)
    by (simp add: e2_def e4_def Let_def delete_update_same)
  have ch2: "map_of (channels e2) = (map_of (channels e))(c := drop_member uid (Some us))"
    by (auto simp: e2_def drop_member_def update_conv' delete_conv')
  have ch4: "channels e4 = channels e2" "listeners e4 = listeners e" "closing e4 = closing e"
    by (simp_all add: e4_def users2)
  have us4: "map_of (users e4) =
      (if removeAll c chans = [] then (map_of (users e))(uid := None)
       else (map_of (users e))(uid \<mapsto> removeAll c chans))"
    by (auto simp: e4_def users2 update_conv' delete_conv')
  have d_ch: "distinct (map fst (channels e)) \<longrightarrow> distinct (map fst (channels e4))"
    by (auto simp: ch4 e2_def distinct_update distinct_delete)
  have d_us: "distinct (map fst (users e)) \<longrightarrow> distinct (map fst (users e4))"
    by (auto simp: e4_def users2 distinct_update distinct_delete)
  have rest: "set (removeAll c chans) = set cs"
    using Cons.prems(1,4) by auto
  show ?case
  proof (cases "cs = []")
    case True
    with rest have "set (removeAll c chans) = {}" by simp
    then have "removeAll c chans = []" by (simp only: set_empty)
    with True show ?thesis
      using step ch2 ch4 us4 d_ch d_us us(1) by (auto simp: fun_eq_iff)
  next
    case False
    with rest have "set (removeAll c chans) \<noteq> {}" by simp
    then have ne: "removeAll c chans \<noteq> []" by (simp only: set_empty not_False_eq_True)
    have mem: "\<forall>c' \<in> set cs. uid \<in> members e4 c'"
      using Cons.prems(1,5) by (auto simp: members_def ch4 ch2)
    have d: "distinct cs" using Cons.prems(1) by simp
    have u4: "map_of (users e4) uid = Some (removeAll c chans)"
      using ne by (simp add: us4)
    have "\<exists>e'. remove_channels uid cs e4 = (Inr (), e')
           \<and> listeners e' = listeners e4 \<and> closing e' = closing e4
           \<and> map_of (users e') = (map_of (users e4))(uid := None)
           \<and> map_of (channels e') =
               (\<lambda>x. if x \<in> set cs then drop_member uid (map_of (channels e4) x)
                    else map_of (channels e4) x)
           \<and> (distinct (map fst (channels e4)) \<longrightarrow> distinct (map fst (channels e')))
           \<and> (distinct (map fst (users e4)) \<longrightarrow> distinct (map fst (users e')))"
      by (rule Cons.IH [OF d False u4 rest mem])
    then obtain e' where e': "remove_channels uid cs e4 = (Inr (), e')"
      "listeners e' = listeners e4" "closing e' = closing e4"
      "map_of (users e') = (map_of (users e4))(uid := None)"
      "map_of (channels e') =
         (\<lambda>x. if x \<in> set cs then drop_member uid (map_of (channels e4) x)
              else map_of (channels e4) x)"
      "distinct (map fst (channels e4)) \<longrightarrow> distinct (map fst (channels e'))"
      "distinct (map fst (users e4)) \<longrightarrow> distinct (map fst (users e'))"
      by blast
    have "map_of (channels e') =
               (\<lambda>x. if x \<in> set (c # cs) then drop_member uid (map_of (channels e) x)
                    else map_of (channels e) x)"
      using Cons.prems(1) us(1) by (auto simp: e'(5) ch4 ch2 fun_eq_iff)
    moreover have "map_of (users e') = (map_of (users e))(uid := None)"
      using ne by (simp add: e'(4) us4)
    ultimately show ?thesis
      using step e' ch4 d_ch d_us by auto
  qed
qed

lemma add_listener_effect:
  assumes "user_id l = Some uid"
  shows "\<exists>e'. add_listener l (Some chans) e = (Inr (), e')
           \<and> closing e' = closing e
           \<and> map_of (channels e') =
               (\<lambda>c. if c \<in> set chans
                    then Some (List.insert uid (case map_of (channels e) c of None \<Rightarrow> [] | Some us \<Rightarrow> us))
                    else map_of (channels e) c)
           \<and> map_of (users e') = (map_of (users e))(uid \<mapsto> remdups chans)
           \<and> map_of (listeners e') =
               (map_of (listeners e))
                 (uid \<mapsto> List.insert (lid l)
                            (case map_of (listeners e) uid of None \<Rightarrow> [] | Some ls \<Rightarrow> ls))
           \<and> (distinct (map fst (channels e)) \<longrightarrow> distinct (map fst (channels e')))
           \<and> (distinct (map fst (users e)) \<longrightarrow> distinct (map fst (users e')))
           \<and> (distinct (map fst (listeners e)) \<longrightarrow> distinct (map fst (listeners e')))"
  using assms
  by (cases "map_of (listeners e) uid")
     (auto simp: add_listener_def Let_def map_of_add_channels update_conv' fun_eq_iff
        distinct_add_channels distinct_update)

lemma sound_keys:
  "sound e \<Longrightarrow> distinct (map fst (channels e))"
  "sound e \<Longrightarrow> distinct (map fst (users e))"
  "sound e \<Longrightarrow> distinct (map fst (listeners e))"
  unfolding sound_def by blast+

lemma sound_forward:
  "sound e \<Longrightarrow> map_of (users e) uid = Some cs \<Longrightarrow> distinct cs"
  "sound e \<Longrightarrow> map_of (users e) uid = Some cs \<Longrightarrow> c \<in> set cs \<Longrightarrow> uid \<in> members e c"
  unfolding sound_def by blast+

lemma sound_listened:
  "sound e \<Longrightarrow> map_of (users e) uid = Some cs \<Longrightarrow> cs \<noteq> [] \<Longrightarrow> map_of (listeners e) uid \<noteq> None"
  unfolding sound_def by blast

lemma sound_snapshot:
  "sound e \<Longrightarrow> map_of (listeners e) uid \<noteq> None \<Longrightarrow> map_of (users e) uid \<noteq> None"
  unfolding sound_def by blast

lemma remove_listener_last_effect:
  assumes "sound e" and "user_id l = Some uid" and "map_of (listeners e) uid = Some ls"
    and "lid l \<in> set ls" and "removeAll (lid l) ls = []"
  shows "\<exists>e' chans. remove_listener l e = (Inr (), e')
           \<and> map_of (users e) uid = Some chans
           \<and> closing e' = closing e
           \<and> map_of (listeners e') = (map_of (listeners e))(uid := None)
           \<and> map_of (users e') =
               (if chans = [] then map_of (users e) else (map_of (users e))(uid := None))
           \<and> map_of (channels e') =
               (\<lambda>c. if c \<in> set chans then drop_member uid (map_of (channels e) c)
                    else map_of (channels e) c)
           \<and> distinct (map fst (channels e')) \<and> distinct (map fst (users e'))
           \<and> distinct (map fst (listeners e'))"
proof -
  define e2 where "e2 = e\<lparr>listeners := AList.delete uid (listeners e)\<rparr>"
  from sound_snapshot [OF assms(1), of uid] assms(3)
  obtain chans where chans: "map_of (users e) uid = Some chans"
    by auto
  have rl: "remove_listener l e = remove_channels uid chans e2"
    using assms(2-5) chans by (simp add: remove_listener_def e2_def Let_def delete_update_same)
  have ls2: "map_of (listeners e2) = (map_of (listeners e))(uid := None)"
    by (simp add: e2_def delete_conv')
  have same: "users e2 = users e" "channels e2 = channels e" "closing e2 = closing e"
    by (simp_all add: e2_def)
  have d2: "distinct (map fst (channels e2))" "distinct (map fst (users e2))"
    "distinct (map fst (listeners e2))"
    using sound_keys [OF assms(1)] by (simp_all add: e2_def distinct_delete)
  show ?thesis
  proof (cases "chans = []")
    case True
    have "remove_listener l e = (Inr (), e2)"
      by (simp add: rl True)
    moreover have "map_of (channels e2) =
               (\<lambda>c. if c \<in> set chans then drop_member uid (map_of (channels e) c)
                    else map_of (channels e) c)"
      by (simp add: True same)
    moreover have "map_of (users e2) =
               (if chans = [] then map_of (users e) else (map_of (users e))(uid := None))"
      by (simp add: True same)
    ultimately show ?thesis
      using chans ls2 d2 same(3) by blast
  next
    case False
    have dc: "distinct chans"
      using sound_forward(1) [OF assms(1) chans] .
    have "members e2 c = members e c" for c
      by (simp add: members_def same)
    then have mem: "\<forall>c \<in> set chans. uid \<in> members e2 c"
      using sound_forward(2) [OF assms(1) chans] by simp
    have u2: "map_of (users e2) uid = Some chans"
      using chans by (simp add: e2_def)
    from remove_channels_effect [OF dc False u2 refl mem]
    obtain e' where e': "remove_channels uid chans e2 = (Inr (), e')"
      "listeners e' = listeners e2" "closing e' = closing e2"
      "map_of (users e') = (map_of (users e2))(uid := None)"
      "map_of (channels e') =
         (\<lambda>c. if c \<in> set chans then drop_member uid (map_of (channels e2) c)
              else map_of (channels e2) c)"
      "distinct (map fst (channels e2)) \<longrightarrow> distinct (map fst (channels e'))"
      "distinct (map fst (users e2)) \<longrightarrow> distinct (map fst (users e'))"
      by blast
    have 1: "remove_listener l e = (Inr (), e')"
      by (simp add: rl e'(1))
    have 2: "closing e' = closing e"
      by (simp add: e'(3) same)
    have 3: "map_of (listeners e') = (map_of (listeners e))(uid := None)"
      by (simp add: e'(2) ls2)
    have 4: "map_of (users e') =
               (if chans = [] then map_of (users e) else (map_of (users e))(uid := None))"
      by (simp add: e'(4) same False)
    have 5: "map_of (channels e') =
               (\<lambda>c. if c \<in> set chans then drop_member uid (map_of (channels e) c)
                    else map_of (channels e) c)"
      unfolding e'(5) same by (rule refl)
    have 6: "distinct (map fst (channels e'))" "distinct (map fst (users e'))"
      "distinct (map fst (listeners e'))"
      using e'(6,7) d2 by (simp_all add: e'(2))
    from 1 chans 2 3 4 5 6 show ?thesis by blast
  qed
qed

section \<open>Removing a listener\<close>

text \<open>
  Claim C9.  When the user of the listener has another listener registered,
  \<open>remove_listener\<close> leaves \<open>channels\<close> and \<open>users\<close> exactly as they were; of \<open>listeners\<close>
  it changes only that user's entry, from which the listener is taken out.  (If the
  listener was not in that entry, the call raises \<open>KeyError\<close> and changes nothing.)
\<close>

theorem remove_listener_other_remains:
  assumes "user_id l = Some uid" and "map_of (listeners e) uid = Some ls"
    and "\<exists>k \<in> set ls. k \<noteq> lid l"
  shows "channels (snd (remove_listener l e)) = channels e
       \<and> users (snd (remove_listener l e)) = users e
       \<and> closing (snd (remove_listener l e)) = closing e
       \<and> listeners (snd (remove_listener l e)) =
           (if lid l \<in> set ls then AList.update uid (removeAll (lid l) ls) (listeners e)
            else listeners e)
       \<and> fst (remove_listener l e) = (if lid l \<in> set ls then Inr () else Inl KeyError)"
proof -
  from assms(3) have "set (removeAll (lid l) ls) \<noteq> {}"
    by auto
  then have "removeAll (lid l) ls \<noteq> []"
    by (simp only: set_empty not_False_eq_True)
  then show ?thesis
    using assms(1,2) by (simp add: remove_listener_def Let_def)
qed

lemma two_devices_eq:
  "two_devices =
     \<lparr>channels = [(10, [7]), (20, [7])], users = [(7, [10, 20])], listeners = [(7, [2, 1])],
      closing = False\<rparr>"
  by (simp add: two_devices_def run_def add_listener_def new_emitter_def demo_listener_def Let_def)

theorem remove_listener_other_remains_witness:
  "user_id (demo_listener 1 (Some 7)) = Some 7
   \<and> map_of (listeners two_devices) 7 = Some [2, 1]
   \<and> (\<exists>k \<in> set [2, 1]. k \<noteq> lid (demo_listener 1 (Some 7)))
   \<and> channels (snd (remove_listener (demo_listener 1 (Some 7)) two_devices)) = [(10, [7]), (20, [7])]
   \<and> users (snd (remove_listener (demo_listener 1 (Some 7)) two_devices)) = [(7, [10, 20])]
   \<and> listeners (snd (remove_listener (demo_listener 1 (Some 7)) two_devices)) = [(7, [2])]"
proof -
  have 1: "user_id (demo_listener 1 (Some 7)) = Some 7"
    by (simp add: demo_listener_def)
  have 2: "map_of (listeners two_devices) 7 = Some [2, 1]"
    by (simp add: two_devices_eq)
  have 3: "\<exists>k \<in> set [2, 1]. k \<noteq> lid (demo_listener 1 (Some 7))"
    by (simp add: demo_listener_def)
  from remove_listener_other_remains [OF 1 2 3] 1 2 3 show ?thesis
    by (simp add: two_devices_eq demo_listener_def)
qed

text \<open>
  Claim C2, at a failing input.  User 7 has two listeners, 1 and 2.  Removing listener 1
  returns and leaves listener 2 registered; removing listener 1 a second time raises
  \<open>KeyError\<close> instead of returning, with the registry unchanged.
\<close>

theorem second_removal_raises:
  "fst (remove_listener (demo_listener 1 (Some 7))
          (snd (remove_listener (demo_listener 1 (Some 7)) two_devices))) = Inl KeyError
   \<and> snd (remove_listener (demo_listener 1 (Some 7))
          (snd (remove_listener (demo_listener 1 (Some 7)) two_devices)))
       = snd (remove_listener (demo_listener 1 (Some 7)) two_devices)
   \<and> fst (remove_listener (demo_listener 1 (Some 7)) two_devices) = Inr ()
   \<and> listeners (snd (remove_listener (demo_listener 1 (Some 7)) two_devices)) = [(7, [2])]"
  by (simp add: two_devices_eq remove_listener_def demo_listener_def Let_def)

section \<open>Listener: results\<close>




text \<open>
  Claim C3, as amended.  A decoded frame that lacks the key \<open>op\<close>, or an IDENTIFY frame
  that lacks \<open>d\<close> or whose \<open>d\<close> lacks \<open>token\<close>, makes \<open>listen\<close> call
  \<open>close(code=BAD_PAYLOAD)\<close>, which on an open, unidentified listener closes the
  connection with code 4002.  A frame whose opcode is an integer other than 1 and 2
  is passed over: nothing is sent, nothing is closed, listener and registry stay as
  they were.
\<close>

lemma close_unidentified:
  "user_id l = None \<Longrightarrow> \<not> closed_ws (ws l) \<Longrightarrow>
     close code message True l e =
       (Inr (), l\<lparr>ws := (ws l)\<lparr>closed_ws := True,
                                 close_frame := Some (close_code_value code, message)\<rparr>\<rparr>, e)"
  by (simp add: close_def remove_listener_def ws_close_def)

theorem frames_closed_or_ignored:
  "(subscript data ''op'' = Inl KeyError \<longrightarrow>
      listen_frame verify fetch now (Inr data) l e = close BAD_PAYLOAD [] True l e)
   \<and> (subscript data ''op'' = Inr (JInt 2) \<and> subscript data ''d'' = Inl KeyError \<longrightarrow>
      listen_frame verify fetch now (Inr data) l e = close BAD_PAYLOAD [] True l e)
   \<and> (subscript data ''op'' = Inr (JInt 2) \<and> subscript data ''d'' = Inr d
        \<and> subscript d ''token'' = Inl KeyError \<longrightarrow>
      listen_frame verify fetch now (Inr data) l e = close BAD_PAYLOAD [] True l e)
   \<and> (user_id l = None \<and> \<not> closed_ws (ws l) \<longrightarrow>
      close BAD_PAYLOAD [] True l e =
        (Inr (), l\<lparr>ws := (ws l)\<lparr>closed_ws := True, close_frame := Some (4002, [])\<rparr>\<rparr>, e))
   \<and> (subscript data ''op'' = Inr (JInt n) \<and> n \<noteq> 1 \<and> n \<noteq> 2 \<longrightarrow>
      listen_frame verify fetch now (Inr data) l e = (Inr (), l, e))"
proof (intro conjI impI)
  assume "subscript data ''op'' = Inl KeyError"
  then show "listen_frame verify fetch now (Inr data) l e = close BAD_PAYLOAD [] True l e"
    by (simp add: listen_frame_def handle_def)
next
  assume "subscript data ''op'' = Inr (JInt 2) \<and> subscript data ''d'' = Inl KeyError"
  then show "listen_frame verify fetch now (Inr data) l e = close BAD_PAYLOAD [] True l e"
    by (simp add: listen_frame_def handle_def)
next
  assume "subscript data ''op'' = Inr (JInt 2) \<and> subscript data ''d'' = Inr d
        \<and> subscript d ''token'' = Inl KeyError"
  then show "listen_frame verify fetch now (Inr data) l e = close BAD_PAYLOAD [] True l e"
    by (simp add: listen_frame_def handle_def)
next
  assume "user_id l = None \<and> \<not> closed_ws (ws l)"
  then show "close BAD_PAYLOAD [] True l e =
        (Inr (), l\<lparr>ws := (ws l)\<lparr>closed_ws := True, close_frame := Some (4002, [])\<rparr>\<rparr>, e)"
    using close_unidentified [of l BAD_PAYLOAD "[]" e] by simp
next
  assume "subscript data ''op'' = Inr (JInt n) \<and> n \<noteq> 1 \<and> n \<noteq> 2"
  then show "listen_frame verify fetch now (Inr data) l e = (Inr (), l, e)"
    by (simp add: listen_frame_def handle_def)
qed

theorem frames_closed_or_ignored_witness:
  "subscript (JObj [(''d'', JNull)]) ''op'' = Inl KeyError
   \<and> user_id (demo_listener 1 None) = None \<and> \<not> closed_ws (ws (demo_listener 1 None))
   \<and> listen_frame reject_all no_channels 0 (Inr (JObj [(''d'', JNull)])) (demo_listener 1 None)
        new_emitter =
       (Inr (),
        (demo_listener 1 None)\<lparr>ws := demo_ws\<lparr>closed_ws := True, close_frame := Some (4002, [])\<rparr>\<rparr>,
        new_emitter)
   \<and> subscript (JObj [(''op'', JInt 2)]) ''op'' = Inr (JInt 2)
   \<and> subscript (JObj [(''op'', JInt 2)]) ''d'' = Inl KeyError
   \<and> listen_frame reject_all no_channels 0 (Inr (JObj [(''op'', JInt 2)])) (demo_listener 1 None)
        new_emitter =
       (Inr (),
        (demo_listener 1 None)\<lparr>ws := demo_ws\<lparr>closed_ws := True, close_frame := Some (4002, [])\<rparr>\<rparr>,
        new_emitter)
   \<and> subscript (JObj [(''op'', JInt 2), (''d'', JObj [])]) ''op'' = Inr (JInt 2)
   \<and> subscript (JObj [(''op'', JInt 2), (''d'', JObj [])]) ''d'' = Inr (JObj [])
   \<and> subscript (JObj []) ''token'' = Inl KeyError
   \<and> listen_frame reject_all no_channels 0 (Inr (JObj [(''op'', JInt 2), (''d'', JObj [])]))
        (demo_listener 1 None) new_emitter =
       (Inr (),
        (demo_listener 1 None)\<lparr>ws := demo_ws\<lparr>closed_ws := True, close_frame := Some (4002, [])\<rparr>\<rparr>,
        new_emitter)
   \<and> subscript (JObj [(''op'', JInt 6)]) ''op'' = Inr (JInt 6) \<and> (6::int) \<noteq> 1 \<and> (6::int) \<noteq> 2
   \<and> listen_frame reject_all no_channels 0 (Inr (JObj [(''op'', JInt 6)])) (demo_listener 1 None)
        new_emitter = (Inr (), demo_listener 1 None, new_emitter)"
  using frames_closed_or_ignored [of "JObj [(''d'', JNull)]" reject_all no_channels 0
      "demo_listener 1 None" new_emitter JNull 6]
    frames_closed_or_ignored [of "JObj [(''op'', JInt 6)]" reject_all no_channels 0
      "demo_listener 1 None" new_emitter JNull 6]
    frames_closed_or_ignored [of "JObj [(''op'', JInt 2)]" reject_all no_channels 0
      "demo_listener 1 None" new_emitter JNull 6]
    frames_closed_or_ignored [of "JObj [(''op'', JInt 2), (''d'', JObj [])]" reject_all
      no_channels 0 "demo_listener 1 None" new_emitter "JObj []" 6]
  by (simp add: demo_listener_def demo_ws_def)

text \<open>
  Claim C3 as stated fails: the frame \<open>{"op": 3}\<close> leaves the connection open and
  without a close frame, and the frame \<open>[]\<close> raises \<open>TypeError\<close> out of the handler,
  again without closing.
\<close>

theorem unknown_opcode_counterexample:
  "listen_frame reject_all no_channels 0 (Inr (JObj [(''op'', JInt 3)])) (demo_listener 1 None)
      new_emitter = (Inr (), demo_listener 1 None, new_emitter)
   \<and> \<not> closed_ws (ws (demo_listener 1 None))
   \<and> close_frame (ws (demo_listener 1 None)) = None
   \<and> listen_frame reject_all no_channels 0 (Inr (JList [])) (demo_listener 1 None) new_emitter
       = (Inl TypeError, demo_listener 1 None, new_emitter)"
  by (simp add: listen_frame_def handle_def demo_listener_def demo_ws_def)

text \<open>The watcher leaves its loop exactly when a tick shows the connection closed or the heartbeat expired.\<close>

lemma hb_loop_exits:
  "(\<exists>t \<in> set ticks. seen_closed t \<or> expired t) \<longleftrightarrow> hb_loop ticks \<noteq> None"
  by (induction ticks) auto

lemma expired_iff: "expired t \<longleftrightarrow> clock_now t - seen_last_hb t > 33"
  by (auto simp: expired_def interval_def response_error_treshold_def HEARTBEAT_INTERVAL_def)

text \<open>
  Claim C10.  Whenever the watcher ends, it has called \<open>close\<close> with the code \<open>NORMAL\<close>
  and \<open>cleanup\<close> set: after seeing the connection closed as well as after a
  heartbeat more than 33 seconds old; it ends as soon as a tick shows either; and
  that \<open>close\<close> runs \<open>remove_listener\<close> on the registry.
\<close>

theorem watcher_always_closes:
  "(check_hb ticks l e \<noteq> None \<longrightarrow> check_hb ticks l e = Some (close NORMAL [] True l e))
   \<and> (seen_closed t \<longrightarrow> check_hb (t # ticks) l e = Some (close NORMAL [] True l e))
   \<and> (\<not> seen_closed t \<and> clock_now t - seen_last_hb t > 33 \<longrightarrow>
        check_hb (t # ticks) l e = Some (close NORMAL [] True l e))
   \<and> ((\<exists>t \<in> set ticks. seen_closed t \<or> expired t) \<longrightarrow> check_hb ticks l e \<noteq> None)
   \<and> snd (snd (close NORMAL [] True l e)) = snd (remove_listener l e)"
proof (intro conjI impI)
  show "check_hb ticks l e \<noteq> None \<Longrightarrow> check_hb ticks l e = Some (close NORMAL [] True l e)"
    by (simp add: check_hb_def split: option.splits)
  show "seen_closed t \<Longrightarrow> check_hb (t # ticks) l e = Some (close NORMAL [] True l e)"
    by (simp add: check_hb_def)
  show "\<not> seen_closed t \<and> clock_now t - seen_last_hb t > 33 \<Longrightarrow>
        check_hb (t # ticks) l e = Some (close NORMAL [] True l e)"
    by (simp add: check_hb_def expired_iff)
  show "\<exists>t \<in> set ticks. seen_closed t \<or> expired t \<Longrightarrow> check_hb ticks l e \<noteq> None"
    using hb_loop_exits [of ticks] by (cases "hb_loop ticks") (simp_all add: check_hb_def)
  show "snd (snd (close NORMAL [] True l e)) = snd (remove_listener l e)"
    by (simp add: close_def split: prod.splits sum.splits)
qed

theorem watcher_always_closes_witness:
  "seen_closed closed_tick
   \<and> check_hb [closed_tick] (demo_listener 1 None) new_emitter =
       Some (Inr (),
             (demo_listener 1 None)\<lparr>ws := demo_ws\<lparr>closed_ws := True, close_frame := Some (1000, [])\<rparr>\<rparr>,
             new_emitter)
   \<and> \<not> seen_closed quiet_tick \<and> clock_now quiet_tick - seen_last_hb quiet_tick > 33
   \<and> check_hb [quiet_tick] (demo_listener 1 None) new_emitter =
       Some (Inr (),
             (demo_listener 1 None)\<lparr>ws := demo_ws\<lparr>closed_ws := True, close_frame := Some (1000, [])\<rparr>\<rparr>,
             new_emitter)"
  using watcher_always_closes [of "[]" "demo_listener 1 None" new_emitter closed_tick]
    watcher_always_closes [of "[]" "demo_listener 1 None" new_emitter quiet_tick]
    close_unidentified [of "demo_listener 1 None" NORMAL "[]" new_emitter]
  by (simp add: closed_tick_def quiet_tick_def demo_listener_def demo_ws_def)

section \<open>Fan-out: results\<close>

text \<open>The actions of the fan-out loops.\<close>

lemma event_notify_returns: "\<exists>ok l'. event_notify ev l = (Inr ok, l')"
  by (auto simp: event_notify_def send_json_def)

lemma notify_listeners_trace:
  "\<exists>f'. notify_listeners ev ls f = (Inr (), f') \<and> trace f' = trace f @ map EventNotify ls"
proof (induction ls arbitrary: f)
  case Nil
  then show ?case by simp
next
  case (Cons i ls)
  obtain ok l' where en: "event_notify ev (objs f i) = (Inr ok, l')"
    using event_notify_returns by blast
  let ?f1 = "f\<lparr>objs := (objs f)(i := l'),
               to_close := (if ok then to_close f else to_close f @ [i]),
               trace := trace f @ [EventNotify i]\<rparr>"
  from Cons.IH [of ?f1] obtain f' where
    "notify_listeners ev ls ?f1 = (Inr (), f')" "trace f' = trace ?f1 @ map EventNotify ls"
    by blast
  then show ?case using en by simp
qed

lemma notify_values_trace:
  "\<exists>f'. notify_values ev lss f = (Inr (), f') \<and> trace f' = trace f @ map EventNotify (concat lss)"
proof (induction lss arbitrary: f)
  case Nil
  then show ?case by simp
next
  case (Cons ls lss)
  from notify_listeners_trace [of ev ls f] obtain f1 where
    f1: "notify_listeners ev ls f = (Inr (), f1)" "trace f1 = trace f @ map EventNotify ls"
    by blast
  from Cons.IH [of f1] obtain f' where
    "notify_values ev lss f1 = (Inr (), f')" "trace f' = trace f1 @ map EventNotify (concat lss)"
    by blast
  then show ?case using f1 by simp
qed

lemma notify_users_trace:
  "\<exists>ns. trace (snd (notify_users ev e us f)) = trace f @ map EventNotify ns"
proof (induction us arbitrary: f)
  case Nil
  show ?case by (rule exI [of _ "[]"]) simp
next
  case (Cons u us)
  show ?case
  proof (cases "map_of (listeners e) u")
    case None
    then show ?thesis by (intro exI [of _ "[]"]) simp
  next
    case (Some ls)
    from notify_listeners_trace [of ev ls f] obtain f1 where
      f1: "notify_listeners ev ls f = (Inr (), f1)" "trace f1 = trace f @ map EventNotify ls"
      by blast
    from Cons.IH [of f1] obtain ns where
      "trace (snd (notify_users ev e us f1)) = trace f1 @ map EventNotify ns"
      by blast
    then have "trace (snd (notify_users ev e (u # us) f)) = trace f @ map EventNotify (ls @ ns)"
      using Some f1 by simp
    then show ?thesis by blast
  qed
qed

lemma notify_users_complete:
  assumes "\<forall>u \<in> set us. map_of (listeners e) u \<noteq> None"
  shows "\<exists>f'. notify_users ev e us f = (Inr (), f')
           \<and> trace f' = trace f @
                map EventNotify
                  (concat (map (\<lambda>u. case map_of (listeners e) u of None \<Rightarrow> [] | Some ls \<Rightarrow> ls) us))"
  using assms
proof (induction us arbitrary: f)
  case Nil
  then show ?case by simp
next
  case (Cons u us)
  then obtain ls where ls: "map_of (listeners e) u = Some ls"
    by auto
  from notify_listeners_trace [of ev ls f] obtain f1 where
    f1: "notify_listeners ev ls f = (Inr (), f1)" "trace f1 = trace f @ map EventNotify ls"
    by blast
  from Cons.IH [of f1] Cons.prems obtain f' where
    "notify_users ev e us f1 = (Inr (), f')"
    "trace f' = trace f1 @
        map EventNotify
          (concat (map (\<lambda>u. case map_of (listeners e) u of None \<Rightarrow> [] | Some ls \<Rightarrow> ls) us))"
    by auto
  then show ?case using ls f1 by simp
qed

lemma notify_channel_list_trace:
  "\<exists>ns. trace (snd (notify_channel_list ev e cs f)) = trace f @ map EventNotify ns"
proof (induction cs arbitrary: f)
  case Nil
  show ?case by (rule exI [of _ "[]"]) simp
next
  case (Cons c cs)
  show ?case
  proof (cases "map_of (channels e) c")
    case None
    then show ?thesis by (intro exI [of _ "[]"]) simp
  next
    case (Some members)
    obtain r f1 where r: "notify_users ev e members f = (r, f1)"
      by (cases "notify_users ev e members f")
    from notify_users_trace [of ev e members f] r obtain ms where
      ms: "trace f1 = trace f @ map EventNotify ms"
      by auto
    show ?thesis
    proof (cases r)
      case (Inl err)
      then show ?thesis using Some r ms by auto
    next
      case (Inr u)
      from Cons.IH [of f1] obtain ns where
        "trace (snd (notify_channel_list ev e cs f1)) = trace f1 @ map EventNotify ns"
        by blast
      then have "trace (snd (notify_channel_list ev e (c # cs) f))
                   = trace f @ map EventNotify (ms @ ns)"
        using Some r ms Inr by simp
      then show ?thesis by blast
    qed
  qed
qed

lemma close_all_trace:
  "\<exists>ks. trace (fst (snd (close_all cs f e))) = trace f @ map CloseListener ks"
proof (induction cs arbitrary: f e)
  case Nil
  show ?case by (rule exI [of _ "[]"]) simp
next
  case (Cons i cs)
  obtain r l' e' where c: "close NORMAL [] True (objs f i) e = (r, l', e')"
    by (cases "close NORMAL [] True (objs f i) e")
  show ?case
  proof (cases r)
    case (Inl err)
    then have "trace (fst (snd (close_all (i # cs) f e))) = trace f @ map CloseListener [i]"
      using c by simp
    then show ?thesis by blast
  next
    case (Inr u)
    let ?f1 = "f\<lparr>objs := (objs f)(i := l'), trace := trace f @ [CloseListener i]\<rparr>"
    from Cons.IH [of ?f1 e'] obtain ks where
      "trace (fst (snd (close_all cs ?f1 e'))) = trace ?f1 @ map CloseListener ks"
      by blast
    then have "trace (fst (snd (close_all (i # cs) f e))) = trace f @ map CloseListener (i # ks)"
      using c Inr by simp
    then show ?thesis by blast
  qed
qed

lemma fan_out_trace:
  assumes "trace (snd (body \<lparr>objs = os, to_close = [], trace = [Acquire]\<rparr>))
             = [Acquire] @ map EventNotify ns"
  shows "\<exists>ks. trace (fst (snd (fan_out body os e)))
           = [Acquire] @ map EventNotify ns @ [Release] @ map CloseListener ks"
proof -
  obtain r f where b: "body \<lparr>objs = os, to_close = [], trace = [Acquire]\<rparr> = (r, f)"
    by (cases "body \<lparr>objs = os, to_close = [], trace = [Acquire]\<rparr>")
  with assms have t: "trace f = [Acquire] @ map EventNotify ns" by simp
  let ?f' = "f\<lparr>trace := trace f @ [Release]\<rparr>"
  show ?thesis
  proof (cases r)
    case (Inl err)
    then have "trace (fst (snd (fan_out body os e)))
           = [Acquire] @ map EventNotify ns @ [Release] @ map CloseListener []"
      using b t by (simp add: fan_out_def)
    then show ?thesis by blast
  next
    case (Inr u)
    from close_all_trace [of "to_close ?f'" ?f' e] obtain ks where
      "trace (fst (snd (close_all (to_close ?f') ?f' e))) = trace ?f' @ map CloseListener ks"
      by blast
    then have "trace (fst (snd (fan_out body os e)))
           = [Acquire] @ map EventNotify ns @ [Release] @ map CloseListener ks"
      using b t Inr by (simp add: fan_out_def Let_def)
    then show ?thesis by blast
  qed
qed

lemma notified_shape:
  "notified ([Acquire] @ map EventNotify ns @ [Release] @ map CloseListener ks) = ns"
proof -
  have a: "notified (map CloseListener ks) = []"
    by (induction ks) auto
  have "notified (map EventNotify ns @ as) = ns @ notified as" for as
    by (induction ns) auto
  then show ?thesis using a by simp
qed

text \<open>
  Claim C8, as amended.  In each fan-out routine the lock is taken first, every call of
  \<open>event_notify\<close> happens before the lock is released, and every call of
  \<open>Listener.close\<close> happens after the release.
\<close>

theorem fan_out_lock_discipline:
  "(\<exists>ns ks. trace (fst (snd (notify_channel channel_id ev os e)))
              = [Acquire] @ map EventNotify ns @ [Release] @ map CloseListener ks)
   \<and> (\<exists>ns ks. trace (fst (snd (notify_channels uid ev os e)))
              = [Acquire] @ map EventNotify ns @ [Release] @ map CloseListener ks)
   \<and> (\<exists>ns ks. trace (fst (snd (notify_everyone ev os e)))
              = [Acquire] @ map EventNotify ns @ [Release] @ map CloseListener ks)"
proof (intro conjI)
  let ?f0 = "\<lparr>objs = os, to_close = [], trace = [Acquire]\<rparr>"
  let ?us = "case map_of (channels e) channel_id of None \<Rightarrow> [] | Some uids \<Rightarrow> uids"
  from notify_users_trace [of ev e ?us ?f0] obtain ns where
    "trace (snd (notify_users ev e ?us ?f0)) = [Acquire] @ map EventNotify ns"
    by auto
  from fan_out_trace [of "notify_users ev e ?us" os ns e, OF this]
  show "\<exists>ns ks. trace (fst (snd (notify_channel channel_id ev os e)))
              = [Acquire] @ map EventNotify ns @ [Release] @ map CloseListener ks"
    unfolding notify_channel_def by blast
  let ?cs = "case map_of (users e) uid of None \<Rightarrow> [] | Some chans \<Rightarrow> chans"
  from notify_channel_list_trace [of ev e ?cs ?f0] obtain ms where
    "trace (snd (notify_channel_list ev e ?cs ?f0)) = [Acquire] @ map EventNotify ms"
    by auto
  from fan_out_trace [of "notify_channel_list ev e ?cs" os ms e, OF this]
  show "\<exists>ns ks. trace (fst (snd (notify_channels uid ev os e)))
              = [Acquire] @ map EventNotify ns @ [Release] @ map CloseListener ks"
    unfolding notify_channels_def by blast
  from notify_values_trace [of ev "map snd (listeners e)" ?f0]
  have "trace (snd (notify_values ev (map snd (listeners e)) ?f0))
          = [Acquire] @ map EventNotify (concat (map snd (listeners e)))"
    by auto
  from fan_out_trace [of "notify_values ev (map snd (listeners e))" os _ e, OF this]
  show "\<exists>ns ks. trace (fst (snd (notify_everyone ev os e)))
              = [Acquire] @ map EventNotify ns @ [Release] @ map CloseListener ks"
    unfolding notify_everyone_def by blast
qed

text \<open>
  Claim C8 as stated fails: with two listeners in channel 10, both writes happen
  between taking and releasing the lock; only the closing of the listener whose write
  failed comes after the release.
\<close>

theorem write_under_lock_counterexample:
  "trace (fst (snd (notify_channel 10 demo_event demo_objs two_devices)))
     = [Acquire, EventNotify 2, EventNotify 1, Release, CloseListener 1]"
  by (simp add: notify_channel_def fan_out_def two_devices_eq demo_objs_def demo_event_def
      demo_listener_def demo_ws_def event_notify_def send_json_def close_def
      remove_listener_def ws_close_def Let_def)

section \<open>Registry: invariants of runs\<close>

lemma soundI:
  assumes "distinct (map fst (channels e))" "distinct (map fst (users e))"
    "distinct (map fst (listeners e))"
    and "\<And>uid cs. map_of (users e) uid = Some cs \<Longrightarrow> distinct cs"
    and "\<And>uid cs c. map_of (users e) uid = Some cs \<Longrightarrow> c \<in> set cs \<Longrightarrow> uid \<in> members e c"
    and "\<And>uid cs. map_of (users e) uid = Some cs \<Longrightarrow> cs \<noteq> [] \<Longrightarrow>
           map_of (listeners e) uid \<noteq> None"
    and "\<And>uid. map_of (listeners e) uid \<noteq> None \<Longrightarrow> map_of (users e) uid \<noteq> None"
  shows "sound e"
  unfolding sound_def using assms by blast

lemma sound_new_emitter: "sound new_emitter"
  by (simp add: sound_def new_emitter_def)

lemma remove_listener_cases:
  obtains (same) "snd (remove_listener l e) = e"
      "\<And>uid. user_id l = Some uid \<Longrightarrow> lid l \<notin> listeners_of e uid"
  | (shrunk) uid ls where "user_id l = Some uid" "map_of (listeners e) uid = Some ls"
      "lid l \<in> set ls" "removeAll (lid l) ls \<noteq> []"
      "remove_listener l e =
         (Inr (), e\<lparr>listeners := AList.update uid (removeAll (lid l) ls) (listeners e)\<rparr>)"
  | (last) uid ls where "user_id l = Some uid" "map_of (listeners e) uid = Some ls"
      "lid l \<in> set ls" "removeAll (lid l) ls = []"
proof (cases "user_id l")
  case None
  then show ?thesis by (intro same) (simp_all add: remove_listener_def)
next
  case (Some uid)
  show ?thesis
  proof (cases "map_of (listeners e) uid")
    case None
    with Some show ?thesis by (intro same) (simp_all add: remove_listener_def listeners_of_def)
  next
    case ls: (Some ls)
    show ?thesis
    proof (cases "lid l \<in> set ls")
      case False
      with Some ls show ?thesis by (intro same) (simp_all add: remove_listener_def listeners_of_def)
    next
      case True
      show ?thesis
      proof (cases "removeAll (lid l) ls = []")
        case e: True
        from Some ls True e show ?thesis by (rule last)
      next
        case ne: False
        with Some ls True show ?thesis
          by (intro shrunk [of uid ls]) (simp_all add: remove_listener_def Let_def)
      qed
    qed
  qed
qed

lemma removeAll_eq_Nil: "removeAll x xs = [] \<longleftrightarrow> set xs \<subseteq> {x}"
  by (induction xs) auto

lemma members_add:
  assumes "map_of (channels e') =
             (\<lambda>c. if c \<in> set chans
                  then Some (List.insert uid (case map_of (channels e) c of None \<Rightarrow> [] | Some us \<Rightarrow> us))
                  else map_of (channels e) c)"
  shows "members e' c = (if c \<in> set chans then insert uid (members e c) else members e c)"
  by (simp add: members_def assms split: option.splits)

lemma members_drop:
  assumes "map_of (channels e') =
             (\<lambda>c. if c \<in> set chans then drop_member uid (map_of (channels e) c)
                  else map_of (channels e) c)"
  shows "members e' c = (if c \<in> set chans then members e c - {uid} else members e c)"
  by (auto simp: members_def assms drop_member_def removeAll_eq_Nil split: option.splits)

lemma sound_add_listener:
  assumes "sound e"
  shows "sound (snd (add_listener l fetched e))"
proof (cases "user_id l")
  case None
  with assms show ?thesis by (simp add: add_listener_def)
next
  case (Some uid)
  show ?thesis
  proof (cases fetched)
    case None
    with Some assms show ?thesis by (simp add: add_listener_def)
  next
    case chans: (Some chans)
    from add_listener_effect [OF Some, of chans e] obtain e' where
      e': "add_listener l (Some chans) e = (Inr (), e')"
      and ch: "map_of (channels e') =
               (\<lambda>c. if c \<in> set chans
                    then Some (List.insert uid (case map_of (channels e) c of None \<Rightarrow> [] | Some us \<Rightarrow> us))
                    else map_of (channels e) c)"
      and us: "map_of (users e') = (map_of (users e))(uid \<mapsto> remdups chans)"
      and ls: "map_of (listeners e') =
               (map_of (listeners e))
                 (uid \<mapsto> List.insert (lid l)
                            (case map_of (listeners e) uid of None \<Rightarrow> [] | Some ls \<Rightarrow> ls))"
      and d: "distinct (map fst (channels e)) \<longrightarrow> distinct (map fst (channels e'))"
        "distinct (map fst (users e)) \<longrightarrow> distinct (map fst (users e'))"
        "distinct (map fst (listeners e)) \<longrightarrow> distinct (map fst (listeners e'))"
      by blast
    note mem = members_add [OF ch]
    have "sound e'"
    proof (rule soundI)
      show "distinct (map fst (channels e'))" "distinct (map fst (users e'))"
        "distinct (map fst (listeners e'))"
        using d sound_keys [OF assms] by simp_all
    next
      fix u cs assume "map_of (users e') u = Some cs"
      then show "distinct cs"
        using sound_forward(1) [OF assms, of u cs] by (auto simp: us split: if_splits)
    next
      fix u cs c assume "map_of (users e') u = Some cs" "c \<in> set cs"
      then show "u \<in> members e' c"
        using sound_forward(2) [OF assms, of u cs c] by (auto simp: us mem split: if_splits)
    next
      fix u cs assume "map_of (users e') u = Some cs" "cs \<noteq> []"
      then show "map_of (listeners e') u \<noteq> None"
        using sound_listened [OF assms, of u cs] by (auto simp: us ls split: if_splits)
    next
      fix u assume "map_of (listeners e') u \<noteq> None"
      then show "map_of (users e') u \<noteq> None"
        using sound_snapshot [OF assms, of u] by (auto simp: us ls split: if_splits)
    qed
    then show ?thesis by (simp add: chans e')
  qed
qed

lemma sound_remove_listener:
  assumes "sound e"
  shows "sound (snd (remove_listener l e))"
proof (cases l e rule: remove_listener_cases)
  case same
  with assms show ?thesis by simp
next
  case (shrunk uid ls)
  let ?e' = "e\<lparr>listeners := AList.update uid (removeAll (lid l) ls) (listeners e)\<rparr>"
  have ls': "map_of (listeners ?e') = (map_of (listeners e))(uid \<mapsto> removeAll (lid l) ls)"
    by (simp add: update_conv')
  have mem: "members ?e' c = members e c" for c
    by (simp add: members_def)
  have "sound ?e'"
  proof (rule soundI)
    show "distinct (map fst (channels ?e'))" "distinct (map fst (users ?e'))"
      "distinct (map fst (listeners ?e'))"
      using sound_keys [OF assms] by (simp_all add: distinct_update)
  next
    fix u cs assume "map_of (users ?e') u = Some cs"
    then show "distinct cs"
      using sound_forward(1) [OF assms, of u cs] by simp
  next
    fix u cs c assume "map_of (users ?e') u = Some cs" "c \<in> set cs"
    then show "u \<in> members ?e' c"
      using sound_forward(2) [OF assms, of u cs c] by (simp add: mem)
  next
    fix u cs assume "map_of (users ?e') u = Some cs" "cs \<noteq> []"
    then show "map_of (listeners ?e') u \<noteq> None"
      using sound_listened [OF assms, of u cs] by (auto simp: update_conv')
  next
    fix u assume "map_of (listeners ?e') u \<noteq> None"
    then show "map_of (users ?e') u \<noteq> None"
      using sound_snapshot [OF assms, of u] shrunk(2) by (auto simp: update_conv' split: if_splits)
  qed
  then show ?thesis by (simp add: shrunk(5))
next
  case (last uid ls)
  from remove_listener_last_effect [OF assms last] obtain e' chans where
    e': "remove_listener l e = (Inr (), e')"
    and chans: "map_of (users e) uid = Some chans"
    and ls': "map_of (listeners e') = (map_of (listeners e))(uid := None)"
    and us: "map_of (users e') =
               (if chans = [] then map_of (users e) else (map_of (users e))(uid := None))"
    and ch: "map_of (channels e') =
               (\<lambda>c. if c \<in> set chans then drop_member uid (map_of (channels e) c)
                    else map_of (channels e) c)"
    and d: "distinct (map fst (channels e'))" "distinct (map fst (users e'))"
      "distinct (map fst (listeners e'))"
    by blast
  note mem = members_drop [OF ch]
  have "sound e'"
  proof (rule soundI)
    show "distinct (map fst (channels e'))" "distinct (map fst (users e'))"
      "distinct (map fst (listeners e'))"
      by (rule d)+
  next
    fix u cs assume "map_of (users e') u = Some cs"
    then show "distinct cs"
      using sound_forward(1) [OF assms, of u cs] by (auto simp: us split: if_splits)
  next
    fix u cs c assume a: "map_of (users e') u = Some cs" "c \<in> set cs"
    show "u \<in> members e' c"
    proof (cases "u = uid")
      case True
      with a chans have "chans = []" "cs = chans"
        by (auto simp: us split: if_splits)
      with a show ?thesis by simp
    next
      case False
      with a have "map_of (users e) u = Some cs"
        by (auto simp: us split: if_splits)
      from sound_forward(2) [OF assms this a(2)] False show ?thesis
        by (simp add: mem)
    qed
  next
    fix u cs assume a: "map_of (users e') u = Some cs" "cs \<noteq> []"
    then have "u \<noteq> uid" "map_of (users e) u = Some cs"
      using chans by (auto simp: us split: if_splits)
    with sound_listened [OF assms, of u cs] a(2) show "map_of (listeners e') u \<noteq> None"
      by (simp add: ls')
  next
    fix u assume "map_of (listeners e') u \<noteq> None"
    then have "u \<noteq> uid" "map_of (listeners e) u \<noteq> None"
      by (auto simp: ls' split: if_splits)
    with sound_snapshot [OF assms, of u] show "map_of (users e') u \<noteq> None"
      by (auto simp: us)
  qed
  then show ?thesis by (simp add: e')
qed

lemma run_snoc: "run (calls @ [c]) e = apply_call c (run calls e)"
  by (simp add: run_def)

lemma sound_run: "sound (run calls new_emitter)"
proof (induction calls rule: rev_induct)
  case Nil
  show ?case by (simp add: run_def sound_new_emitter)
next
  case (snoc c calls)
  then show ?case
    by (cases c) (simp_all add: run_snoc sound_add_listener sound_remove_listener)
qed

lemma tidyI:
  assumes "\<And>uid cs. map_of (users e) uid = Some cs \<Longrightarrow> cs \<noteq> [] \<and> set cs = store uid"
    and "\<And>c us. map_of (channels e) c = Some us \<Longrightarrow> us \<noteq> []"
    and "\<And>c us uid. map_of (channels e) c = Some us \<Longrightarrow> uid \<in> set us \<Longrightarrow> c \<in> channels_of e uid"
    and "\<And>uid ls. map_of (listeners e) uid = Some ls \<Longrightarrow> ls \<noteq> []"
  shows "tidy store e"
  unfolding tidy_def using assms by blast

lemma tidy_users:
  "tidy store e \<Longrightarrow> map_of (users e) uid = Some cs \<Longrightarrow> cs \<noteq> [] \<and> set cs = store uid"
  unfolding tidy_def by blast

lemma tidy_channels:
  "tidy store e \<Longrightarrow> map_of (channels e) c = Some us \<Longrightarrow> us \<noteq> []"
  "tidy store e \<Longrightarrow> map_of (channels e) c = Some us \<Longrightarrow> uid \<in> set us \<Longrightarrow> c \<in> channels_of e uid"
  unfolding tidy_def by blast+

lemma tidy_listeners:
  "tidy store e \<Longrightarrow> map_of (listeners e) uid = Some ls \<Longrightarrow> ls \<noteq> []"
  unfolding tidy_def by blast

lemma tidy_new_emitter: "tidy store new_emitter"
  by (simp add: tidy_def new_emitter_def)

lemma tidy_add_listener:
  assumes "tidy store e" and "snapshot_agrees store (AddListener l fetched)"
  shows "tidy store (snd (add_listener l fetched e))"
proof (cases "user_id l")
  case None
  with assms show ?thesis by (simp add: add_listener_def)
next
  case (Some uid)
  show ?thesis
  proof (cases fetched)
    case None
    with Some assms show ?thesis by (simp add: add_listener_def)
  next
    case chans: (Some chans)
    from assms(2) Some chans have agree: "chans \<noteq> []" "set chans = store uid"
      by simp_all
    from add_listener_effect [OF Some, of chans e] obtain e' where
      e': "add_listener l (Some chans) e = (Inr (), e')"
      and ch: "map_of (channels e') =
               (\<lambda>c. if c \<in> set chans
                    then Some (List.insert uid (case map_of (channels e) c of None \<Rightarrow> [] | Some us \<Rightarrow> us))
                    else map_of (channels e) c)"
      and us: "map_of (users e') = (map_of (users e))(uid \<mapsto> remdups chans)"
      and ls: "map_of (listeners e') =
               (map_of (listeners e))
                 (uid \<mapsto> List.insert (lid l)
                            (case map_of (listeners e) uid of None \<Rightarrow> [] | Some ls \<Rightarrow> ls))"
      by blast
    have co: "channels_of e' u = (if u = uid then set chans else channels_of e u)" for u
      by (simp add: channels_of_def us)
    have "tidy store e'"
    proof (rule tidyI)
      fix u cs assume a: "map_of (users e') u = Some cs"
      show "cs \<noteq> [] \<and> set cs = store u"
      proof (cases "u = uid")
        case True
        with a have "cs = remdups chans" by (simp add: us)
        with agree True show ?thesis by simp
      next
        case False
        with a have "map_of (users e) u = Some cs" by (simp add: us)
        from tidy_users [OF assms(1) this] show ?thesis .
      qed
    next
      fix c ms assume "map_of (channels e') c = Some ms"
      then show "ms \<noteq> []"
        using tidy_channels(1) [OF assms(1), of c ms]
        by (auto simp: ch insert_nonempty split: if_splits)
    next
      fix c ms u assume a: "map_of (channels e') c = Some ms" "u \<in> set ms"
      show "c \<in> channels_of e' u"
      proof (cases "c \<in> set chans")
        case True
        show ?thesis
        proof (cases "u = uid")
          case True
          with \<open>c \<in> set chans\<close> show ?thesis by (simp add: co)
        next
          case False
          with a True obtain ms0 where "map_of (channels e) c = Some ms0" "u \<in> set ms0"
            by (auto simp: ch split: option.splits)
          from tidy_channels(2) [OF assms(1) this] False show ?thesis
            by (simp add: co)
        qed
      next
        case False
        with a have old: "map_of (channels e) c = Some ms"
          by (simp add: ch)
        from tidy_channels(2) [OF assms(1) old a(2)] have c: "c \<in> channels_of e u" .
        have "u \<noteq> uid"
        proof
          assume "u = uid"
          with c obtain cs where "map_of (users e) uid = Some cs" "c \<in> set cs"
            by (auto simp: channels_of_def split: option.splits)
          with tidy_users [OF assms(1), of uid cs] agree False show False by simp
        qed
        with c show ?thesis by (simp add: co)
      qed
    next
      fix u ks assume "map_of (listeners e') u = Some ks"
      then show "ks \<noteq> []"
        using tidy_listeners [OF assms(1), of u ks]
        by (auto simp: ls insert_nonempty split: if_splits)
    qed
    then show ?thesis by (simp add: chans e')
  qed
qed

lemma tidy_remove_listener:
  assumes "sound e" and "tidy store e"
  shows "tidy store (snd (remove_listener l e))"
proof (cases l e rule: remove_listener_cases)
  case same
  with assms show ?thesis by simp
next
  case (shrunk uid ls)
  let ?e' = "e\<lparr>listeners := AList.update uid (removeAll (lid l) ls) (listeners e)\<rparr>"
  have co: "channels_of ?e' u = channels_of e u" for u
    by (simp add: channels_of_def)
  have "tidy store ?e'"
  proof (rule tidyI)
    fix u cs assume "map_of (users ?e') u = Some cs"
    then show "cs \<noteq> [] \<and> set cs = store u"
      using tidy_users [OF assms(2), of u cs] by simp
  next
    fix c ms assume "map_of (channels ?e') c = Some ms"
    then show "ms \<noteq> []"
      using tidy_channels(1) [OF assms(2), of c ms] by simp
  next
    fix c ms u assume "map_of (channels ?e') c = Some ms" "u \<in> set ms"
    then show "c \<in> channels_of ?e' u"
      using tidy_channels(2) [OF assms(2), of c ms u] by (simp add: co)
  next
    fix u ks assume "map_of (listeners ?e') u = Some ks"
    then show "ks \<noteq> []"
      using tidy_listeners [OF assms(2), of u ks] shrunk(4)
      by (auto simp: update_conv' split: if_splits)
  qed
  then show ?thesis by (simp add: shrunk(5))
next
  case (last uid ls)
  from remove_listener_last_effect [OF assms(1) last] obtain e' chans where
    e': "remove_listener l e = (Inr (), e')"
    and chans: "map_of (users e) uid = Some chans"
    and ls': "map_of (listeners e') = (map_of (listeners e))(uid := None)"
    and us: "map_of (users e') =
               (if chans = [] then map_of (users e) else (map_of (users e))(uid := None))"
    and ch: "map_of (channels e') =
               (\<lambda>c. if c \<in> set chans then drop_member uid (map_of (channels e) c)
                    else map_of (channels e) c)"
    by blast
  from tidy_users [OF assms(2) chans] have ne: "chans \<noteq> []" by simp
  have us': "map_of (users e') = (map_of (users e))(uid := None)"
    using ne by (simp add: us)
  have co: "channels_of e' u = (if u = uid then {} else channels_of e u)" for u
    by (simp add: channels_of_def us')
  have co_uid: "channels_of e uid = set chans"
    by (simp add: channels_of_def chans)
  have "tidy store e'"
  proof (rule tidyI)
    fix u cs assume "map_of (users e') u = Some cs"
    then show "cs \<noteq> [] \<and> set cs = store u"
      using tidy_users [OF assms(2), of u cs] by (auto simp: us' split: if_splits)
  next
    fix c ms assume "map_of (channels e') c = Some ms"
    then show "ms \<noteq> []"
      using tidy_channels(1) [OF assms(2), of c ms]
      by (auto simp: ch drop_member_def split: if_splits option.splits)
  next
    fix c ms u assume a: "map_of (channels e') c = Some ms" "u \<in> set ms"
    show "c \<in> channels_of e' u"
    proof (cases "c \<in> set chans")
      case True
      with a obtain ms0 where "map_of (channels e) c = Some ms0" "u \<in> set ms0" "u \<noteq> uid"
        by (auto simp: ch drop_member_def split: if_splits option.splits)
      with tidy_channels(2) [OF assms(2), of c ms0 u] show ?thesis
        by (simp add: co)
    next
      case False
      with a have old: "map_of (channels e) c = Some ms"
        by (simp add: ch)
      from tidy_channels(2) [OF assms(2) old a(2)] have c: "c \<in> channels_of e u" .
      with False co_uid have "u \<noteq> uid" by auto
      with c show ?thesis by (simp add: co)
    qed
  next
    fix u ks assume "map_of (listeners e') u = Some ks"
    then show "ks \<noteq> []"
      using tidy_listeners [OF assms(2), of u ks] by (auto simp: ls' split: if_splits)
  qed
  then show ?thesis by (simp add: e')
qed

lemma tidy_run:
  assumes "\<forall>c \<in> set calls. snapshot_agrees store c"
  shows "tidy store (run calls new_emitter)"
  using assms
proof (induction calls rule: rev_induct)
  case Nil
  show ?case by (simp add: run_def tidy_new_emitter)
next
  case (snoc c calls)
  then have t: "tidy store (run calls new_emitter)" and a: "snapshot_agrees store c"
    by simp_all
  show ?case
  proof (cases c)
    case (AddListener l fetched)
    with tidy_add_listener [OF t, of l fetched] a show ?thesis
      by (simp add: run_snoc)
  next
    case (RemoveListener l)
    with tidy_remove_listener [OF sound_run t, of l] show ?thesis
      by (simp add: run_snoc)
  qed
qed

lemma listeners_of_add_listener:
  "listeners_of (snd (add_listener l fetched e)) u =
     (case user_id l of
        None \<Rightarrow> listeners_of e u
      | Some uid \<Rightarrow>
          (case fetched of
             None \<Rightarrow> listeners_of e u
           | Some chans \<Rightarrow> if u = uid then insert (lid l) (listeners_of e u) else listeners_of e u))"
proof (cases "user_id l")
  case None
  then show ?thesis by (simp add: add_listener_def)
next
  case (Some uid)
  show ?thesis
  proof (cases fetched)
    case None
    with Some show ?thesis by (simp add: add_listener_def)
  next
    case chans: (Some chans)
    from add_listener_effect [OF Some, of chans e] obtain e' where
      e': "add_listener l (Some chans) e = (Inr (), e')"
      and ls: "map_of (listeners e') =
               (map_of (listeners e))
                 (uid \<mapsto> List.insert (lid l)
                            (case map_of (listeners e) uid of None \<Rightarrow> [] | Some ls \<Rightarrow> ls))"
      by blast
    show ?thesis
      by (auto simp: Some chans e' listeners_of_def ls split: option.splits)
  qed
qed

lemma listeners_of_remove_listener:
  assumes "sound e"
  shows "listeners_of (snd (remove_listener l e)) u =
     (case user_id l of
        None \<Rightarrow> listeners_of e u
      | Some uid \<Rightarrow> if u = uid then listeners_of e u - {lid l} else listeners_of e u)"
proof (cases l e rule: remove_listener_cases)
  case same
  then show ?thesis
    by (auto split: option.splits)
next
  case (shrunk uid ls)
  then show ?thesis
    by (auto simp: listeners_of_def update_conv')
next
  case (last uid ls)
  from remove_listener_last_effect [OF assms last] obtain e' where
    e': "remove_listener l e = (Inr (), e')"
    and ls': "map_of (listeners e') = (map_of (listeners e))(uid := None)"
    by blast
  from last(4) have "set ls \<subseteq> {lid l}" by (simp add: removeAll_eq_Nil)
  then show ?thesis
    using last(1,2) by (auto simp: e' listeners_of_def ls')
qed

lemma registered_snoc: "registered (calls @ [c]) = record_call c (registered calls)"
  by (simp add: registered_def)

lemma listeners_of_run:
  "listeners_of (run calls new_emitter) u = {i. (i, u) \<in> registered calls}"
proof (induction calls rule: rev_induct)
  case Nil
  show ?case by (simp add: run_def registered_def listeners_of_def new_emitter_def)
next
  case (snoc c calls)
  show ?case
  proof (cases c)
    case (AddListener l fetched)
    then show ?thesis
      using snoc.IH
      by (auto simp: run_snoc registered_snoc listeners_of_add_listener split: option.splits)
  next
    case (RemoveListener l)
    then show ?thesis
      using snoc.IH
      by (auto simp: run_snoc registered_snoc listeners_of_remove_listener [OF sound_run]
          split: option.splits)
  qed
qed

lemma membership_of_sound_tidy:
  assumes "sound e" and "tidy store e"
  shows "membership_invariant e"
  unfolding membership_invariant_def
proof (intro allI iffI)
  fix uid c assume "uid \<in> members e c"
  then obtain us where "map_of (channels e) c = Some us" "uid \<in> set us"
    by (auto simp: members_def split: option.splits)
  from tidy_channels(2) [OF assms(2) this] show "c \<in> channels_of e uid" .
next
  fix uid c assume "c \<in> channels_of e uid"
  then obtain cs where "map_of (users e) uid = Some cs" "c \<in> set cs"
    by (auto simp: channels_of_def split: option.splits)
  from sound_forward(2) [OF assms(1) this] show "uid \<in> members e c" .
qed

lemma no_empty_of_sound_tidy:
  assumes "sound e" and "tidy store e"
  shows "no_empty_entry e"
proof -
  have "[] \<notin> snd ` set (channels e)"
  proof
    assume "[] \<in> snd ` set (channels e)"
    then obtain c where "(c, []) \<in> set (channels e)" by auto
    with sound_keys(1) [OF assms(1)] have "map_of (channels e) c = Some []" by simp
    from tidy_channels(1) [OF assms(2) this] show False by simp
  qed
  moreover have "[] \<notin> snd ` set (users e)"
  proof
    assume "[] \<in> snd ` set (users e)"
    then obtain u where "(u, []) \<in> set (users e)" by auto
    with sound_keys(2) [OF assms(1)] have "map_of (users e) u = Some []" by simp
    from tidy_users [OF assms(2) this] show False by simp
  qed
  moreover have "[] \<notin> snd ` set (listeners e)"
  proof
    assume "[] \<in> snd ` set (listeners e)"
    then obtain u where "(u, []) \<in> set (listeners e)" by auto
    with sound_keys(3) [OF assms(1)] have "map_of (listeners e) u = Some []" by simp
    from tidy_listeners [OF assms(2) this] show False by simp
  qed
  ultimately show ?thesis by (simp add: no_empty_entry_def)
qed

text \<open>
  Runs against a store that gives each user the same channels throughout, never none,
  keep the two indices in step and free of empty sets; the listener index follows the
  history of every run.
\<close>

lemma constant_store_invariant:
  assumes "\<forall>c \<in> set calls. snapshot_agrees store c"
  shows "membership_invariant (run calls new_emitter)
       \<and> no_empty_entry (run calls new_emitter)
       \<and> (\<forall>i uid. i \<in> listeners_of (run calls new_emitter) uid \<longleftrightarrow> (i, uid) \<in> registered calls)"
proof -
  note s = sound_run [of calls] and t = tidy_run [OF assms]
  from membership_of_sound_tidy [OF s t] no_empty_of_sound_tidy [OF s t]
    listeners_of_run [of calls]
  show ?thesis by simp
qed

lemma left_channel_run:
  "run left_channel new_emitter =
     \<lparr>channels = [(10, [7]), (20, [7])], users = [(7, [10])], listeners = [(7, [2, 1])],
      closing = False\<rparr>"
  by (simp add: left_channel_def run_def add_listener_def new_emitter_def demo_listener_def
      Let_def)

lemma left_channel_gone:
  "run (left_channel @ [RemoveListener (demo_listener 1 (Some 7)),
                        RemoveListener (demo_listener 2 (Some 7))]) new_emitter =
     \<lparr>channels = [(20, [7])], users = [], listeners = [], closing = False\<rparr>"
  by (simp add: left_channel_def run_def add_listener_def remove_listener_def new_emitter_def
      demo_listener_def Let_def)

text \<open>
  Claim C1, at failing inputs.  A user who belongs to no channel gets an empty set in
  \<open>users\<close>, and removing its listener leaves the empty set there.  A user who has left
  channel 20 between two registrations stays a member of channel 20 while the channel
  is no longer among the user's channels; after both listeners are removed channel 20
  still holds the user, and \<open>notify_channel\<close> for channel 20 raises \<open>KeyError\<close>.
\<close>

theorem registry_invariant_broken:
  "users (run [lonely_user] new_emitter) = [(7, [])]
   \<and> \<not> no_empty_entry (run [lonely_user] new_emitter)
   \<and> run [lonely_user, RemoveListener (demo_listener 1 (Some 7))] new_emitter =
       \<lparr>channels = [], users = [(7, [])], listeners = [], closing = False\<rparr>
   \<and> \<not> no_empty_entry (run [lonely_user, RemoveListener (demo_listener 1 (Some 7))] new_emitter)
   \<and> 7 \<in> members (run left_channel new_emitter) 20
   \<and> 20 \<notin> channels_of (run left_channel new_emitter) 7
   \<and> \<not> membership_invariant (run left_channel new_emitter)
   \<and> run (left_channel @ [RemoveListener (demo_listener 1 (Some 7)),
                           RemoveListener (demo_listener 2 (Some 7))]) new_emitter =
       \<lparr>channels = [(20, [7])], users = [], listeners = [], closing = False\<rparr>
   \<and> fst (notify_channel 20 demo_event demo_objs
            (run (left_channel @ [RemoveListener (demo_listener 1 (Some 7)),
                                  RemoveListener (demo_listener 2 (Some 7))]) new_emitter))
       = Inl KeyError"
proof -
  have 1: "run [lonely_user] new_emitter =
       \<lparr>channels = [], users = [(7, [])], listeners = [(7, [1])], closing = False\<rparr>"
    by (simp add: lonely_user_def run_def add_listener_def new_emitter_def demo_listener_def
        Let_def)
  then have 2: "users (run [lonely_user] new_emitter) = [(7, [])]"
    and 3: "\<not> no_empty_entry (run [lonely_user] new_emitter)"
    by (simp_all add: no_empty_entry_def)
  have 4: "run [lonely_user, RemoveListener (demo_listener 1 (Some 7))] new_emitter =
       \<lparr>channels = [], users = [(7, [])], listeners = [], closing = False\<rparr>"
    by (simp add: lonely_user_def run_def add_listener_def remove_listener_def new_emitter_def
        demo_listener_def Let_def)
  then have 5: "\<not> no_empty_entry
      (run [lonely_user, RemoveListener (demo_listener 1 (Some 7))] new_emitter)"
    by (simp add: no_empty_entry_def)
  have 6: "7 \<in> members (run left_channel new_emitter) 20"
    and 7: "20 \<notin> channels_of (run left_channel new_emitter) 7"
    unfolding left_channel_run by (simp_all add: members_def channels_of_def)
  then have 8: "\<not> membership_invariant (run left_channel new_emitter)"
    unfolding membership_invariant_def by blast
  have 9: "fst (notify_channel 20 demo_event demo_objs
            (run (left_channel @ [RemoveListener (demo_listener 1 (Some 7)),
                                  RemoveListener (demo_listener 2 (Some 7))]) new_emitter))
       = Inl KeyError"
    unfolding left_channel_gone by (simp add: notify_channel_def fan_out_def)
  from 2 3 4 5 6 7 8 left_channel_gone 9 show ?thesis by blast
qed

text \<open>
  Claim C7.  In every registry state reached by \<open>add_listener\<close> and \<open>remove_listener\<close>
  calls that satisfies the membership invariant, \<open>notify_channel\<close> calls \<open>event_notify\<close>
  on exactly the listeners of the users whose channels contain the channel of the
  event; \<open>notify_everyone\<close> calls it on every listener of every user, in whatever state.
\<close>

theorem notify_audience:
  assumes "e = run calls new_emitter" and "membership_invariant e"
  shows "set (notified (trace (fst (snd (notify_channel channel_id ev os e)))))
           = (\<Union>uid \<in> {uid. channel_id \<in> channels_of e uid}. listeners_of e uid)
       \<and> notified (trace (fst (snd (notify_everyone ev os e)))) = concat (map snd (listeners e))
       \<and> (\<forall>uid. listeners_of e uid \<subseteq> set (notified (trace (fst (snd (notify_everyone ev os e))))))"
proof -
  from assms(1) have s: "sound e" by (simp add: sound_run)
  let ?f0 = "\<lparr>objs = os, to_close = [], trace = [Acquire]\<rparr>"
  let ?us = "case map_of (channels e) channel_id of None \<Rightarrow> [] | Some uids \<Rightarrow> uids"
  let ?ls = "\<lambda>u. case map_of (listeners e) u of None \<Rightarrow> [] | Some ls \<Rightarrow> ls"
  have "set ?us = members e channel_id"
    by (simp add: members_def split: option.splits)
  also have "\<dots> = {uid. channel_id \<in> channels_of e uid}"
    using assms(2) unfolding membership_invariant_def by blast
  finally have us: "set ?us = {uid. channel_id \<in> channels_of e uid}" .
  have listened: "\<forall>u \<in> set ?us. map_of (listeners e) u \<noteq> None"
  proof
    fix u assume "u \<in> set ?us"
    with us have "channel_id \<in> channels_of e u" by simp
    then obtain cs where cs: "map_of (users e) u = Some cs" "channel_id \<in> set cs"
      by (auto simp: channels_of_def split: option.splits)
    then have "cs \<noteq> []" by auto
    from sound_listened [OF s cs(1) this] show "map_of (listeners e) u \<noteq> None" .
  qed
  from notify_users_complete [OF listened, of ev ?f0]
  have "trace (snd (notify_users ev e ?us ?f0))
          = [Acquire] @ map EventNotify (concat (map ?ls ?us))"
    by auto
  from fan_out_trace [of "notify_users ev e ?us" os "concat (map ?ls ?us)" e, OF this]
  obtain ks where "trace (fst (snd (notify_channel channel_id ev os e)))
      = [Acquire] @ map EventNotify (concat (map ?ls ?us)) @ [Release] @ map CloseListener ks"
    unfolding notify_channel_def by blast
  then have "notified (trace (fst (snd (notify_channel channel_id ev os e))))
      = concat (map ?ls ?us)"
    by (simp only: notified_shape)
  then have "set (notified (trace (fst (snd (notify_channel channel_id ev os e)))))
      = (\<Union>u \<in> set ?us. set (?ls u))"
    by simp
  also have "\<dots> = (\<Union>uid \<in> {uid. channel_id \<in> channels_of e uid}. listeners_of e uid)"
    unfolding us by (rule SUP_cong) (auto simp: listeners_of_def split: option.splits)
  finally have 1: "set (notified (trace (fst (snd (notify_channel channel_id ev os e)))))
           = (\<Union>uid \<in> {uid. channel_id \<in> channels_of e uid}. listeners_of e uid)" .
  from notify_values_trace [of ev "map snd (listeners e)" ?f0]
  have "trace (snd (notify_values ev (map snd (listeners e)) ?f0))
          = [Acquire] @ map EventNotify (concat (map snd (listeners e)))"
    by auto
  from fan_out_trace [of "notify_values ev (map snd (listeners e))" os _ e, OF this]
  obtain ks' where "trace (fst (snd (notify_everyone ev os e)))
      = [Acquire] @ map EventNotify (concat (map snd (listeners e))) @ [Release]
          @ map CloseListener ks'"
    unfolding notify_everyone_def by blast
  then have 2: "notified (trace (fst (snd (notify_everyone ev os e))))
      = concat (map snd (listeners e))"
    by (simp only: notified_shape)
  have 3: "listeners_of e uid \<subseteq> set (notified (trace (fst (snd (notify_everyone ev os e)))))"
    for uid
    unfolding 2 by (auto simp: listeners_of_def split: option.splits dest!: map_of_SomeD)
  from 1 2 3 show ?thesis by blast
qed

theorem notify_audience_witness:
  "two_devices = run [AddListener (demo_listener 1 (Some 7)) (Some [10, 20]),
                      AddListener (demo_listener 2 (Some 7)) (Some [10, 20])] new_emitter
   \<and> membership_invariant two_devices
   \<and> set (notified (trace (fst (snd (notify_channel 10 demo_event demo_objs two_devices)))))
       = {1, 2}
   \<and> set (notified (trace (fst (snd (notify_channel 30 demo_event demo_objs two_devices)))))
       = {}
   \<and> notified (trace (fst (snd (notify_everyone demo_event demo_objs two_devices)))) = [2, 1]"
proof -
  have h1: "two_devices = run [AddListener (demo_listener 1 (Some 7)) (Some [10, 20]),
                      AddListener (demo_listener 2 (Some 7)) (Some [10, 20])] new_emitter"
    by (simp add: two_devices_def)
  have co: "channels_of two_devices uid = (if uid = 7 then {10, 20} else {})" for uid
    by (simp add: channels_of_def two_devices_eq)
  have me: "members two_devices c = (if c = 10 \<or> c = 20 then {7} else {})" for c
    by (simp add: members_def two_devices_eq)
  have h2: "membership_invariant two_devices"
    unfolding membership_invariant_def co me by auto
  have a: "{uid. (10::int) \<in> channels_of two_devices uid} = {7}"
    "{uid. (30::int) \<in> channels_of two_devices uid} = {}"
    unfolding co by auto
  have l: "listeners_of two_devices 7 = {1, 2}"
    by (auto simp: listeners_of_def two_devices_eq)
  from notify_audience [OF h1 h2, of 10 demo_event demo_objs]
  have c10: "set (notified (trace (fst (snd (notify_channel 10 demo_event demo_objs two_devices)))))
       = {1, 2}"
    by (simp add: a l)
  from notify_audience [OF h1 h2, of 30 demo_event demo_objs]
  have c30: "set (notified (trace (fst (snd (notify_channel 30 demo_event demo_objs two_devices)))))
       = {}"
    by (simp add: a)
  from notify_audience [OF h1 h2, of 10 demo_event demo_objs]
  have "notified (trace (fst (snd (notify_everyone demo_event demo_objs two_devices))))
       = concat (map snd (listeners two_devices))"
    by blast
  then have ev: "notified (trace (fst (snd (notify_everyone demo_event demo_objs two_devices))))
       = [2, 1]"
    by (simp add: two_devices_eq)
  from h1 h2 c10 c30 ev show ?thesis by blast
qed

end
